theory Spec2Isabelle
  imports Main
begin

section \<open>Strings of the host language\<close>

text \<open>
  A source string is modelled as a \<^typ>\<open>string\<close>: each \<^typ>\<open>char\<close> stands for one
  code unit in the range 0..255.  The character classes below are the ones of the
  ECMAScript standard restricted to that range: white space (\<open>\s\<close> and \<open>trim\<close>) is
  TAB, LF, VT, FF, CR, SPACE and NBSP; a line terminator (what \<open>.\<close> refuses) is LF or CR.
\<close>

definition isSpace :: "char \<Rightarrow> bool" where
  "isSpace c = (c = CHR 0x09 \<or> c = CHR 0x0A \<or> c = CHR 0x0B \<or> c = CHR 0x0C
              \<or> c = CHR 0x0D \<or> c = CHR 0x20 \<or> c = CHR 0xA0)"

definition isLineTerminator :: "char \<Rightarrow> bool" where
  "isLineTerminator c = (c = CHR 0x0A \<or> c = CHR 0x0D)"

definition isDigit :: "char \<Rightarrow> bool" where
  "isDigit c = (48 \<le> (of_char c :: nat) \<and> (of_char c :: nat) \<le> 57)"

definition toLowerChar :: "char \<Rightarrow> char" where
  "toLowerChar c =
     (let n = (of_char c :: nat)
      in if (65 \<le> n \<and> n \<le> 90) \<or> (192 \<le> n \<and> n \<le> 222 \<and> n \<noteq> 215)
         then char_of (n + 32) else c)"

definition toLowerCase :: "string \<Rightarrow> string" where
  "toLowerCase s = map toLowerChar s"

text \<open>
  The canonical form used by a pattern with the \<open>i\<close> flag: the upper-case code unit.
  (The two code units of this range whose upper case lies outside it, 181 and 255, keep
  their own value: no other code unit shares their canonical form.)
\<close>

definition canonicalize :: "char \<Rightarrow> char" where
  "canonicalize c =
     (let n = (of_char c :: nat)
      in if (97 \<le> n \<and> n \<le> 122) \<or> (224 \<le> n \<and> n \<le> 254 \<and> n \<noteq> 247)
         then char_of (n - 32) else c)"

definition trim :: "string \<Rightarrow> string" where
  "trim s = rev (dropWhile isSpace (rev (dropWhile isSpace s)))"

definition startsWith :: "string \<Rightarrow> string \<Rightarrow> bool" where
  "startsWith s p = (take (length p) s = p)"

text \<open>\<open>s.split('\n')\<close>: the pieces between line feeds; never the empty list.\<close>

fun split_nl :: "string \<Rightarrow> string list" where
  "split_nl [] = [[]]"
| "split_nl (c # cs) =
     (if c = CHR 0x0A then [] # split_nl cs
      else (case split_nl cs of [] \<Rightarrow> [[c]] | l # ls \<Rightarrow> (c # l) # ls))"

text \<open>\<open>xs.join(sep)\<close>.\<close>

fun join :: "string \<Rightarrow> string list \<Rightarrow> string" where
  "join sep [] = []"
| "join sep [x] = x"
| "join sep (x # y # ys) = x @ sep @ join sep (y # ys)"

section \<open>Regular expressions\<close>

text \<open>
  The patterns of the source use literals, character classes, greedy \<open>?\<close>, greedy
  \<open>*\<close> and \<open>+\<close> on a single class, alternation, capture groups and \<open>$\<close>; every one
  is anchored with \<open>^\<close> and none has the \<open>g\<close> or \<open>m\<close> flag.  \<open>run r\<close> lists the
  ways \<open>r\<close> can match at the front of the input in the priority order of a backtracking
  matcher, each with the rest of the input and the captures so far; the match that
  \<open>String.prototype.match\<close> reports is the first of them.
\<close>

datatype regex =
    Eps
  | Chr "char \<Rightarrow> bool"
  | Seq regex regex
  | Alt regex regex
  | Opt regex
  | Star "char \<Rightarrow> bool"
  | Group nat regex
  | Eoi

type_synonym captures = "nat \<rightharpoonup> string"

fun run :: "regex \<Rightarrow> string \<times> captures \<Rightarrow> (string \<times> captures) list" where
  "run Eps st = [st]"
| "run (Chr p) ([], c) = []"
| "run (Chr p) (x # xs, c) = (if p x then [(xs, c)] else [])"
| "run (Seq a b) st = concat (map (run b) (run a st))"
| "run (Alt a b) st = run a st @ run b st"
| "run (Opt a) st = run a st @ [st]"
| "run (Star p) ([], c) = [([], c)]"
| "run (Star p) (x # xs, c) = (if p x then run (Star p) (xs, c) else []) @ [(x # xs, c)]"
| "run (Group n a) (s, c) =
     map (\<lambda>(s', c'). (s', c'(n \<mapsto> take (length s - length s') s))) (run a (s, c))"
| "run Eoi (s, c) = (if s = [] then [(s, c)] else [])"

definition firstOf :: "'a list \<Rightarrow> 'a option" where
  "firstOf xs = (case xs of [] \<Rightarrow> None | x # _ \<Rightarrow> Some x)"

definition match :: "string \<Rightarrow> regex \<Rightarrow> captures option" where
  "match s r = map_option snd (firstOf (run r (s, Map.empty)))"

text \<open>\<open>s.match(r)[n]\<close> where there is a match and group \<open>n\<close> took part in it.\<close>

definition capture :: "string \<Rightarrow> regex \<Rightarrow> nat \<Rightarrow> string option" where
  "capture s r n = (case match s r of None \<Rightarrow> None | Some m \<Rightarrow> m n)"

text \<open>The truth value of \<open>s.match(r)\<close> in a condition.\<close>

definition matches :: "string \<Rightarrow> regex \<Rightarrow> bool" where
  "matches s r = (case match s r of None \<Rightarrow> False | Some _ \<Rightarrow> True)"

definition chr :: "char \<Rightarrow> regex" where
  "chr c = Chr (\<lambda>x. x = c)"

definition chri :: "char \<Rightarrow> regex" where
  "chri c = Chr (\<lambda>x. canonicalize x = canonicalize c)"

definition oneOrMore :: "(char \<Rightarrow> bool) \<Rightarrow> regex" where
  "oneOrMore p = Seq (Chr p) (Star p)"

definition seqs :: "regex list \<Rightarrow> regex" where
  "seqs rs = foldr Seq rs Eps"

definition lit :: "string \<Rightarrow> regex" where
  "lit s = seqs (map chr s)"

definition liti :: "string \<Rightarrow> regex" where
  "liti s = seqs (map chri s)"

definition digit :: regex where
  "digit = Chr isDigit"

definition dot :: "char \<Rightarrow> bool" where
  "dot c = (\<not> isLineTerminator c)"

text \<open>\<open>binds n r\<close>: every way \<open>r\<close> matches leaves group \<open>n\<close> defined.\<close>

definition binds :: "nat \<Rightarrow> regex \<Rightarrow> bool" where
  "binds n r = (\<forall>s c s' c'. (s', c') \<in> set (run r (s, c)) \<longrightarrow> n \<in> dom c')"

text \<open>\<open>/^##\s+\[?Unreleased\]?/i\<close>\<close>

definition UNRELEASED_REGEX :: regex where
  "UNRELEASED_REGEX =
     seqs [lit ''##'', oneOrMore isSpace, Opt (chr CHR ''[''), liti ''Unreleased'', Opt (chr CHR '']'')]"

text \<open>\<open>/^##\s+\[?[^\]]+\]?/\<close>\<close>

definition NEXT_VERSION_REGEX :: regex where
  "NEXT_VERSION_REGEX =
     seqs [lit ''##'', oneOrMore isSpace, Opt (chr CHR ''[''), oneOrMore (\<lambda>c. c \<noteq> CHR '']''),
           Opt (chr CHR '']'')]"

text \<open>\<open>/^##\s+\[?([^\]]+)\]?(?:\s*-\s*|\s+)(\d{4}-\d{2}-\d{2})?/\<close>\<close>

definition VERSION_HEADER_REGEX :: regex where
  "VERSION_HEADER_REGEX =
     seqs [lit ''##'', oneOrMore isSpace, Opt (chr CHR ''[''),
           Group 1 (oneOrMore (\<lambda>c. c \<noteq> CHR '']'')), Opt (chr CHR '']''),
           Alt (seqs [Star isSpace, chr CHR ''-'', Star isSpace]) (oneOrMore isSpace),
           Opt (Group 2 (seqs [digit, digit, digit, digit, chr CHR ''-'', digit, digit,
                               chr CHR ''-'', digit, digit]))]"

text \<open>\<open>/^###\s+(.+)$/\<close>\<close>

definition CATEGORY_HEADER_REGEX :: regex where
  "CATEGORY_HEADER_REGEX = seqs [lit ''###'', oneOrMore isSpace, Group 1 (oneOrMore dot), Eoi]"

text \<open>\<open>/^[-*]\s+(.+)$/\<close>\<close>

definition ENTRY_REGEX :: regex where
  "ENTRY_REGEX =
     seqs [Chr (\<lambda>c. c = CHR ''-'' \<or> c = CHR ''*''), oneOrMore isSpace, Group 1 (oneOrMore dot), Eoi]"

section \<open>Data model\<close>

datatype ChangelogCategory = Added | Changed | Deprecated | Removed | Fixed | Security

text \<open>The string value of a category.\<close>

fun categoryName :: "ChangelogCategory \<Rightarrow> string" where
  "categoryName Added = ''Added''"
| "categoryName Changed = ''Changed''"
| "categoryName Deprecated = ''Deprecated''"
| "categoryName Removed = ''Removed''"
| "categoryName Fixed = ''Fixed''"
| "categoryName Security = ''Security''"

text \<open>
  A \<open>Date\<close> is used by the program only through its UTC calendar day (the part of
  \<open>toISOString()\<close> before the \<open>T\<close>) and is built only by \<open>new Date(s)\<close> from a
  captured \<open>YYYY-MM-DD\<close>, which is midnight UTC of that day; it is modelled by year,
  month and day.  The formatter is called with \<open>new Date()\<close> only, so an invalid date
  is not among its inputs.
\<close>

datatype Date = Date (year: int) (month: nat) (day: nat)

record ChangelogEntry =
  category :: ChangelogCategory
  description :: string
  commits :: "string list"

record ChangelogVersion =
  version :: string
  date :: "Date option"
  entries :: "ChangelogEntry list"

text \<open>The field \<open>description\<close> of the parsed document is named \<open>doc_description\<close> here.\<close>

record ParsedChangelog =
  title :: string
  doc_description :: string
  versions :: "ChangelogVersion list"

record AICategorizedChanges =
  categories :: "ChangelogCategory \<Rightarrow> string list"

section \<open>Formatter\<close>

definition CATEGORY_ORDER :: "ChangelogCategory list" where
  "CATEGORY_ORDER = [Added, Changed, Deprecated, Removed, Fixed, Security]"

text \<open>The last \<open>n\<close> decimal digits of \<open>k\<close>, zero-padded.\<close>

fun pad :: "nat \<Rightarrow> nat \<Rightarrow> string" where
  "pad 0 k = []"
| "pad (Suc n) k = pad n (k div 10) @ [char_of (48 + k mod 10)]"

text \<open>\<open>date.toISOString().split('T')[0]\<close>: years outside 0..9999 are written with a sign
  and six digits.\<close>

definition formatDate :: "Date \<Rightarrow> string" where
  "formatDate d =
     (if 0 \<le> year d \<and> year d \<le> 9999 then pad 4 (nat (year d))
      else (if year d < 0 then ''-'' else ''+'') @ pad 6 (nat \<bar>year d\<bar>))
     @ ''-'' @ pad 2 (month d) @ ''-'' @ pad 2 (day d)"

definition formatEntry :: "ChangelogEntry \<Rightarrow> string option \<Rightarrow> string" where
  "formatEntry entry repoUrl =
     (let line = ''- '' @ description entry
      in case repoUrl of
           None \<Rightarrow> line
         | Some url \<Rightarrow>
             if commits entry \<noteq> [] \<and> url \<noteq> []
             then line @ '' ('' @
                  join '', '' (map (\<lambda>hash. ''['' @ take 7 hash @ ''](''
                                          @ url @ ''/commit/'' @ hash @ '')'') (commits entry))
                  @ '')''
             else line)"

text \<open>What one round of the loop over \<open>CATEGORY_ORDER\<close> pushes to \<open>sections\<close>.\<close>

definition categorySections ::
  "AICategorizedChanges \<Rightarrow> string option \<Rightarrow> ChangelogCategory \<Rightarrow> string list" where
  "categorySections categorizedChanges repoUrl cat =
     (let es = categories categorizedChanges cat
      in if es \<noteq> []
         then [''### '' @ categoryName cat @ [CHR 0x0A]]
              @ map (\<lambda>d. formatEntry \<lparr>category = cat, description = d, commits = []\<rparr> repoUrl) es
              @ [[]]
         else [])"

definition formatAIEntries :: "AICategorizedChanges \<Rightarrow> string option \<Rightarrow> string" where
  "formatAIEntries categorizedChanges repoUrl =
     join [CHR 0x0A] (concat (map (categorySections categorizedChanges repoUrl) CATEGORY_ORDER))"

definition formatVersion ::
  "string \<Rightarrow> Date option \<Rightarrow> AICategorizedChanges \<Rightarrow> string option \<Rightarrow> string" where
  "formatVersion ver dt categorizedChanges repoUrl =
     (let header = ''## ['' @ ver @ '']'' @
                   (case dt of None \<Rightarrow> [] | Some d \<Rightarrow> '' - '' @ formatDate d);
          entriesContent = formatAIEntries categorizedChanges repoUrl
      in join [CHR 0x0A]
           ([header, []] @ (if trim entriesContent \<noteq> [] then [entriesContent] else [])))"

definition formatUnreleasedHeader :: string where
  "formatUnreleasedHeader = ''## [Unreleased]'' @ [CHR 0x0A]"

definition createNewChangelog ::
  "string \<Rightarrow> Date \<Rightarrow> AICategorizedChanges \<Rightarrow> string option \<Rightarrow> string" where
  "createNewChangelog ver dt categorizedChanges repoUrl =
     join [CHR 0x0A]
       [''# Changelog'',
        [],
        ''All notable changes to this project will be documented in this file.'',
        [],
        ''The format is based on [Keep a Changelog](https://keepachangelog.com/en/1.1.0/),'',
        ''and this project adheres to [Semantic Versioning](https://semver.org/spec/v2.0.0.html).'',
        [],
        formatUnreleasedHeader,
        [],
        formatVersion ver (Some dt) categorizedChanges repoUrl]"

section \<open>Writer\<close>

text \<open>
  The first loop of \<open>insertVersion\<close> over the lines from index \<open>i\<close> on, with the flag
  \<open>foundUnreleased\<close>; \<open>None\<close> is the source's \<open>-1\<close>.
\<close>

fun findInsertIndex :: "string list \<Rightarrow> nat \<Rightarrow> bool \<Rightarrow> nat option" where
  "findInsertIndex [] i foundUnreleased = None"
| "findInsertIndex (line # rest) i foundUnreleased =
     (if matches line UNRELEASED_REGEX then findInsertIndex rest (Suc i) True
      else if foundUnreleased \<and> matches line NEXT_VERSION_REGEX then Some i
      else if startsWith line ''## '' \<and> \<not> foundUnreleased then Some i
      else findInsertIndex rest (Suc i) foundUnreleased)"

text \<open>The second loop: the first line that starts with \<open>## \<close>.\<close>

fun findPreambleEnd :: "string list \<Rightarrow> nat \<Rightarrow> nat option" where
  "findPreambleEnd [] i = None"
| "findPreambleEnd (line # rest) i =
     (if startsWith line ''## '' then Some i else findPreambleEnd rest (Suc i))"

definition insertIndexOf :: "string list \<Rightarrow> nat" where
  "insertIndexOf lines =
     (case findInsertIndex lines 0 False of
        Some i \<Rightarrow> i
      | None \<Rightarrow> (case findPreambleEnd lines 0 of Some i \<Rightarrow> i | None \<Rightarrow> length lines))"

definition insertVersion ::
  "string \<Rightarrow> string \<Rightarrow> Date \<Rightarrow> AICategorizedChanges \<Rightarrow> string option \<Rightarrow> string" where
  "insertVersion existingContent ver dt categorizedChanges repoUrl =
     (let lines = split_nl existingContent;
          newVersionContent = formatVersion ver (Some dt) categorizedChanges repoUrl;
          insertIndex = insertIndexOf lines
      in join [CHR 0x0A]
           (take insertIndex lines @ [newVersionContent, []] @ drop insertIndex lines))"

text \<open>The loop of \<open>updateUnreleasedSection\<close>: \<open>(unreleasedStart, unreleasedEnd)\<close>.\<close>

fun findUnreleased :: "string list \<Rightarrow> nat \<Rightarrow> nat option \<Rightarrow> nat option \<times> nat option" where
  "findUnreleased [] i unreleasedStart = (unreleasedStart, None)"
| "findUnreleased (line # rest) i unreleasedStart =
     (if matches line UNRELEASED_REGEX then findUnreleased rest (Suc i) (Some i)
      else if unreleasedStart \<noteq> None \<and> matches line NEXT_VERSION_REGEX
           then (unreleasedStart, Some i)
      else findUnreleased rest (Suc i) unreleasedStart)"

definition updateUnreleasedSection :: "string \<Rightarrow> AICategorizedChanges \<Rightarrow> string" where
  "updateUnreleasedSection existingContent categorizedChanges =
     (let lines = split_nl existingContent
      in case findUnreleased lines 0 None of
           (None, _) \<Rightarrow> existingContent
         | (Some unreleasedStart, e) \<Rightarrow>
             (let unreleasedEnd = (case e of None \<Rightarrow> length lines | Some j \<Rightarrow> j);
                  newUnreleasedContent = formatVersion ''Unreleased'' None categorizedChanges None
              in join [CHR 0x0A]
                   (take unreleasedStart lines @ [newUnreleasedContent, []]
                    @ drop unreleasedEnd lines)))"

text \<open>
  The file system: a path either holds a text or does not exist.  \<open>writeChangelog\<close>
  returns the file system after \<open>writeFileSync\<close>.
\<close>

type_synonym files = "string \<rightharpoonup> string"

definition writeChangelog ::
  "files \<Rightarrow> string \<Rightarrow> string \<Rightarrow> Date \<Rightarrow> AICategorizedChanges \<Rightarrow> string option \<Rightarrow> files" where
  "writeChangelog fs filePath ver dt categorizedChanges repoUrl =
     (let content =
            (case fs filePath of
               Some existingContent \<Rightarrow>
                 insertVersion existingContent ver dt categorizedChanges repoUrl
             | None \<Rightarrow> createNewChangelog ver dt categorizedChanges repoUrl)
      in fs(filePath \<mapsto> content))"

definition previewChangelog ::
  "files \<Rightarrow> string \<Rightarrow> string \<Rightarrow> Date \<Rightarrow> AICategorizedChanges \<Rightarrow> string option \<Rightarrow> string" where
  "previewChangelog fs filePath ver dt categorizedChanges repoUrl =
     (case fs filePath of
        Some existingContent \<Rightarrow> insertVersion existingContent ver dt categorizedChanges repoUrl
      | None \<Rightarrow> createNewChangelog ver dt categorizedChanges repoUrl)"

section \<open>Parser\<close>

definition VALID_CATEGORIES :: "ChangelogCategory list" where
  "VALID_CATEGORIES = [Added, Changed, Deprecated, Removed, Fixed, Security]"

text \<open>
  The only operation of the parser that can throw is \<open>m[k].trim()\<close> on a capture group
  that did not take part in the match (\<open>undefined\<close>): a \<open>TypeError\<close>.
\<close>

datatype error = TypeError

definition group :: "captures \<Rightarrow> nat \<Rightarrow> error + string" where
  "group m k = (case m k of None \<Rightarrow> Inl TypeError | Some s \<Rightarrow> Inr s)"

text \<open>
  \<open>new Date(s)\<close> for a captured \<open>YYYY-MM-DD\<close>: the day the digits name.  (For digits
  that name no calendar day the host yields an invalid date, as for month 13, or a later
  day, as for February 30; the model keeps the digits as read, and no statement below is
  about such a string.)
\<close>

definition number :: "string \<Rightarrow> nat" where
  "number s = foldl (\<lambda>a c. 10 * a + (of_char c - 48)) 0 s"

definition newDate :: "string \<Rightarrow> Date" where
  "newDate s = Date (int (number (take 4 s))) (number (take 2 (drop 5 s)))
                    (number (take 2 (drop 8 s)))"

text \<open>The local variables of \<open>parseChangelog\<close>.\<close>

record pstate =
  p_title :: string
  p_description :: string
  p_versions :: "ChangelogVersion list"
  currentVersion :: "ChangelogVersion option"
  currentCategory :: "ChangelogCategory option"
  inPreamble :: bool
  preambleLines :: "string list"

definition initial :: pstate where
  "initial = \<lparr>p_title = ''Changelog'', p_description = [], p_versions = [],
              currentVersion = None, currentCategory = None, inPreamble = True,
              preambleLines = []\<rparr>"

text \<open>The branch taken on a version header.\<close>

definition versionStep :: "captures \<Rightarrow> pstate \<Rightarrow> error + pstate" where
  "versionStep versionMatch st =
     (let st1 = (case currentVersion st of
                   Some v \<Rightarrow> st\<lparr>p_versions := p_versions st @ [v]\<rparr>
                 | None \<Rightarrow> st);
          st2 = (if inPreamble st1
                 then st1\<lparr>p_description := trim (join [CHR 0x0A] (preambleLines st1)),
                          inPreamble := False\<rparr>
                 else st1)
      in case group versionMatch 1 of
           Inl e \<Rightarrow> Inl e
         | Inr label \<Rightarrow>
             Inr (st2\<lparr>currentVersion :=
                         Some \<lparr>version = trim label,
                               date = map_option newDate (versionMatch 2),
                               entries = []\<rparr>,
                      currentCategory := None\<rparr>))"

text \<open>The branch taken on a category header inside a version.\<close>

definition categoryStep :: "captures \<Rightarrow> pstate \<Rightarrow> error + pstate" where
  "categoryStep categoryMatch st =
     (case group categoryMatch 1 of
        Inl e \<Rightarrow> Inl e
      | Inr g \<Rightarrow>
          (let rawCategoryName = trim g;
               matchedCategory =
                 find (\<lambda>cat. toLowerCase (categoryName cat) = toLowerCase rawCategoryName)
                      VALID_CATEGORIES
           in case matchedCategory of
                Some cat \<Rightarrow> Inr (st\<lparr>currentCategory := Some cat\<rparr>)
              | None \<Rightarrow> Inr st))"

text \<open>The entry check and, when it does not apply, the preamble collection.\<close>

definition entryStep :: "string \<Rightarrow> pstate \<Rightarrow> error + pstate" where
  "entryStep line st =
     (case (match line ENTRY_REGEX, currentVersion st, currentCategory st) of
        (Some entryMatch, Some v, Some cat) \<Rightarrow>
          (case group entryMatch 1 of
             Inl e \<Rightarrow> Inl e
           | Inr g \<Rightarrow>
               Inr (st\<lparr>currentVersion :=
                          Some (v\<lparr>entries := entries v @
                                    [\<lparr>category = cat, description = trim g, commits = []\<rparr>]\<rparr>)\<rparr>))
      | _ \<Rightarrow>
          Inr (if inPreamble st \<and> trim line \<noteq> []
               then st\<lparr>preambleLines := preambleLines st @ [line]\<rparr> else st))"

text \<open>The body of the loop, for the line at index \<open>i\<close>.\<close>

definition step :: "nat \<Rightarrow> string \<Rightarrow> pstate \<Rightarrow> error + pstate" where
  "step i line st =
     (if startsWith line ''# '' \<and> i < 5
      then Inr (st\<lparr>p_title := trim (drop 2 line), inPreamble := True\<rparr>)
      else case match line VERSION_HEADER_REGEX of
             Some versionMatch \<Rightarrow> versionStep versionMatch st
           | None \<Rightarrow>
               (case match line CATEGORY_HEADER_REGEX of
                  Some categoryMatch \<Rightarrow>
                    if currentVersion st \<noteq> None then categoryStep categoryMatch st
                    else entryStep line st
                | None \<Rightarrow> entryStep line st))"

fun parseLoop :: "nat \<Rightarrow> string list \<Rightarrow> pstate \<Rightarrow> error + pstate" where
  "parseLoop i [] st = Inr st"
| "parseLoop i (line # rest) st =
     (case step i line st of Inl e \<Rightarrow> Inl e | Inr st' \<Rightarrow> parseLoop (Suc i) rest st')"

definition parseChangelog :: "string \<Rightarrow> error + ParsedChangelog" where
  "parseChangelog content =
     (case parseLoop 0 (split_nl content) initial of
        Inl e \<Rightarrow> Inl e
      | Inr st \<Rightarrow>
          Inr \<lparr>title = p_title st,
               doc_description = p_description st,
               versions = p_versions st @
                          (case currentVersion st of Some v \<Rightarrow> [v] | None \<Rightarrow> [])\<rparr>)"





section \<open>Sample inputs\<close>

definition sampleChanges :: AICategorizedChanges where
  "sampleChanges =
     \<lparr>categories = (\<lambda>c. [])(Added := [''New flag''], Fixed := [''Crash on start''])\<rparr>"

definition sampleDoc :: string where
  "sampleDoc = join [CHR 0x0A]
     [''# Changelog'', [], ''## [Unreleased]'', [], ''## [1.0.0] - 2024-01-01'', [],
      ''### Added'', [], ''- First release'', [],
      ''[1.0.0]: https://example.com/org/repo/releases/tag/1.0.0'']"

definition notesDoc :: string where
  "notesDoc = join [CHR 0x0A]
     [''# Changelog'', ''## Notes'', ''## [Unreleased]'', ''## [1.0.0] - 2024-01-01'']"

definition plainDoc :: string where
  "plainDoc = join [CHR 0x0A]
     [''# Changelog'', [], ''## [1.0.0] - 2024-01-01'', [], ''### Added'', [],
      ''- First release'']"

definition tailDoc :: string where
  "tailDoc = join [CHR 0x0A] [''# Changelog'', [], ''## [Unreleased]'', [], ''- pending fix'']"

definition emptyChanges :: AICategorizedChanges where
  "emptyChanges = \<lparr>categories = (\<lambda>c. [])\<rparr>"

definition lateTitleDoc :: string where
  "lateTitleDoc = join [CHR 0x0A] [''## [1.0.0] - 2024-01-01'', ''# Late title'', ''- x'']"



definition paddedChanges :: AICategorizedChanges where
  "paddedChanges = \<lparr>categories = (\<lambda>c. [])(Added := ['' padded''])\<rparr>"

section \<open>Lines and joins\<close>

lemma split_nl_not_Nil: "split_nl s \<noteq> []"
  by (induction s) (auto split: list.splits)

lemma join_Cons: "ys \<noteq> [] \<Longrightarrow> join sep (x # ys) = x @ sep @ join sep ys"
  by (cases ys) simp_all

lemma join_append:
  "xs \<noteq> [] \<Longrightarrow> ys \<noteq> [] \<Longrightarrow> join sep (xs @ ys) = join sep xs @ sep @ join sep ys"
proof (induction xs)
  case Nil
  then show ?case by simp
next
  case (Cons x xs)
  show ?case
  proof (cases "xs = []")
    case True
    with Cons.prems show ?thesis by (simp add: join_Cons)
  next
    case False
    with Cons show ?thesis by (simp add: join_Cons)
  qed
qed

lemma join_split_nl: "join [CHR 0x0A] (split_nl s) = s"
proof (induction s)
  case Nil
  show ?case by simp
next
  case (Cons c cs)
  obtain l ls where sp: "split_nl cs = l # ls"
    using split_nl_not_Nil [of cs] by (cases "split_nl cs") auto
  show ?case
  proof (cases "c = CHR 0x0A")
    case True
    with Cons show ?thesis by (simp add: join_Cons split_nl_not_Nil)
  next
    case False
    from Cons sp have "join [CHR 0x0A] (l # ls) = cs" by simp
    then have "join [CHR 0x0A] ((c # l) # ls) = c # cs"
      by (cases ls) auto
    with False sp show ?thesis by simp
  qed
qed

lemma split_nl_append:
  "split_nl (a @ CHR 0x0A # b) = split_nl a @ split_nl b"
proof (induction a)
  case Nil
  show ?case by simp
next
  case (Cons c cs)
  obtain l ls where sp: "split_nl cs = l # ls"
    using split_nl_not_Nil [of cs] by (cases "split_nl cs") auto
  with Cons show ?case by (auto split: list.splits)
qed

lemma split_nl_join:
  "xs \<noteq> [] \<Longrightarrow> split_nl (join [CHR 0x0A] xs) = concat (map split_nl xs)"
proof (induction xs)
  case Nil
  then show ?case by simp
next
  case (Cons x xs)
  show ?case
  proof (cases "xs = []")
    case True
    then show ?thesis by simp
  next
    case False
    with Cons.IH show ?thesis by (simp add: join_Cons split_nl_append)
  qed
qed

lemma split_nl_line: "CHR 0x0A \<notin> set s \<Longrightarrow> split_nl s = [s]"
  by (induction s) auto

section \<open>The insertion point\<close>

lemma findInsertIndex_bounds:
  "findInsertIndex ls k f = Some i \<Longrightarrow> k \<le> i \<and> i < k + length ls"
  by (induction ls k f rule: findInsertIndex.induct) (fastforce split: if_splits)+

lemma findPreambleEnd_bounds:
  "findPreambleEnd ls k = Some i \<Longrightarrow> k \<le> i \<and> i < k + length ls"
  by (induction ls k rule: findPreambleEnd.induct) (fastforce split: if_splits)+

lemma insertIndexOf_le: "insertIndexOf ls \<le> length ls"
  unfolding insertIndexOf_def
  by (auto split: option.splits dest: findInsertIndex_bounds findPreambleEnd_bounds)

lemma split_nl_no_newline: "l \<in> set (split_nl s) \<Longrightarrow> CHR 0x0A \<notin> set l"
proof (induction s arbitrary: l)
  case Nil
  then show ?case by simp
next
  case (Cons c cs)
  obtain x xs where sp: "split_nl cs = x # xs"
    using split_nl_not_Nil [of cs] by (cases "split_nl cs") auto
  with Cons show ?case by (auto split: if_splits)
qed

lemma concat_split_nl_lines:
  "\<forall>l \<in> set ls. CHR 0x0A \<notin> set l \<Longrightarrow> concat (map split_nl ls) = ls"
  by (induction ls) (simp_all add: split_nl_line)

lemma concat_split_nl_take: "concat (map split_nl (take i (split_nl s))) = take i (split_nl s)"
  by (rule concat_split_nl_lines) (auto dest: in_set_takeD split_nl_no_newline)

lemma concat_split_nl_drop: "concat (map split_nl (drop i (split_nl s))) = drop i (split_nl s)"
  by (rule concat_split_nl_lines) (auto dest: in_set_dropD split_nl_no_newline)

section \<open>Frame of the splice\<close>

text \<open>
  C6.  For every existing text and every version, date, changes and repository URL, the
  insertion index lies within the lines of the text, and the lines of the result of
  \<open>insertVersion\<close> are: the original lines before the insertion index, unchanged; the
  lines of the rendered version block; one empty line; the original lines from the
  insertion index on, unchanged.  (By \<open>join_split_nl\<close> a text is determined by its lines,
  so what follows the insertion point is the same bytes as before.)
\<close>

theorem insertVersion_frame:
  "insertIndexOf (split_nl e) \<le> length (split_nl e) \<and>
   split_nl (insertVersion e v d c r) =
     take (insertIndexOf (split_nl e)) (split_nl e)
     @ split_nl (formatVersion v (Some d) c r) @ [[]]
     @ drop (insertIndexOf (split_nl e)) (split_nl e)"
  by (simp add: insertIndexOf_le insertVersion_def Let_def split_nl_join
        concat_split_nl_take concat_split_nl_drop)

theorem insertVersion_frame_witness:
  "split_nl (insertVersion sampleDoc ''1.1.0'' (Date 2024 3 9) sampleChanges None) =
     [''# Changelog'', [], ''## [Unreleased]'', [],
      ''## [1.1.0] - 2024-03-09'', [], ''### Added'', [], ''- New flag'', [],
      ''### Fixed'', [], ''- Crash on start'', [], [],
      ''## [1.0.0] - 2024-01-01'', [],
      ''### Added'', [], ''- First release'', [],
      ''[1.0.0]: https://example.com/org/repo/releases/tag/1.0.0'']"
proof -
  have "split_nl (insertVersion sampleDoc ''1.1.0'' (Date 2024 3 9) sampleChanges None) =
     take (insertIndexOf (split_nl sampleDoc)) (split_nl sampleDoc)
     @ split_nl (formatVersion ''1.1.0'' (Some (Date 2024 3 9)) sampleChanges None) @ [[]]
     @ drop (insertIndexOf (split_nl sampleDoc)) (split_nl sampleDoc)"
    using insertVersion_frame [of sampleDoc "''1.1.0''" "Date 2024 3 9" sampleChanges None]
    by (rule conjunct2)
  also have "\<dots> = [''# Changelog'', [], ''## [Unreleased]'', [],
      ''## [1.1.0] - 2024-03-09'', [], ''### Added'', [], ''- New flag'', [],
      ''### Fixed'', [], ''- Crash on start'', [], [],
      ''## [1.0.0] - 2024-01-01'', [],
      ''### Added'', [], ''- First release'', [],
      ''[1.0.0]: https://example.com/org/repo/releases/tag/1.0.0'']"
    by code_simp
  finally show ?thesis .
qed

section \<open>Preview and write\<close>

text \<open>
  C9.  For every file system (the path holding a text or absent) and every version,
  date, changes and repository URL, \<open>writeChangelog\<close> leaves the file system with exactly
  the string that \<open>previewChangelog\<close> returns stored at the path, every other path as it
  was.
\<close>

theorem preview_write_equiv:
  "writeChangelog fs filePath v d c r = fs(filePath \<mapsto> previewChangelog fs filePath v d c r)"
  by (simp add: writeChangelog_def previewChangelog_def)

section \<open>Refreshing the Unreleased section\<close>

lemma findUnreleased_no_start:
  "\<forall>line \<in> set ls. \<not> matches line UNRELEASED_REGEX \<Longrightarrow>
   fst (findUnreleased ls i None) = None"
  by (induction ls arbitrary: i) simp_all

text \<open>
  C10.  When no line of the existing text matches the Unreleased header pattern,
  \<open>updateUnreleasedSection\<close> returns the text unchanged.
\<close>

theorem updateUnreleased_noop:
  "\<forall>line \<in> set (split_nl e). \<not> matches line UNRELEASED_REGEX \<Longrightarrow>
   updateUnreleasedSection e c = e"
  using findUnreleased_no_start [of "split_nl e" 0]
  by (auto simp: updateUnreleasedSection_def Let_def split: prod.splits option.splits)

theorem updateUnreleased_noop_witness:
  "list_all (\<lambda>line. \<not> matches line UNRELEASED_REGEX)
     (split_nl ''# Notes\<newline>\<newline>## [1.0.0] - 2024-01-01\<newline>- x'') \<and>
   updateUnreleasedSection ''# Notes\<newline>\<newline>## [1.0.0] - 2024-01-01\<newline>- x'' sampleChanges
     = ''# Notes\<newline>\<newline>## [1.0.0] - 2024-01-01\<newline>- x''"
proof -
  have h: "list_all (\<lambda>line. \<not> matches line UNRELEASED_REGEX)
     (split_nl ''# Notes\<newline>\<newline>## [1.0.0] - 2024-01-01\<newline>- x'')"
    by code_simp
  then have "\<forall>line \<in> set (split_nl ''# Notes\<newline>\<newline>## [1.0.0] - 2024-01-01\<newline>- x'').
      \<not> matches line UNRELEASED_REGEX"
    by (simp only: list_all_iff)
  from updateUnreleased_noop [OF this] h show ?thesis by blast
qed

section \<open>Where the new version goes\<close>

lemma findInsertIndex_skip_preamble:
  "\<forall>l \<in> set pre. \<not> matches l UNRELEASED_REGEX \<and> \<not> startsWith l ''## '' \<Longrightarrow>
   findInsertIndex (pre @ rest) k False = findInsertIndex rest (k + length pre) False"
  by (induction pre arbitrary: k) simp_all

lemma findInsertIndex_skip_unreleased:
  "\<forall>l \<in> set mid. matches l UNRELEASED_REGEX \<or> \<not> matches l NEXT_VERSION_REGEX \<Longrightarrow>
   findInsertIndex (mid @ rest) k True = findInsertIndex rest (k + length mid) True"
  by (induction mid arbitrary: k) auto

lemma insertIndexOf_after_unreleased:
  assumes "\<forall>l \<in> set pre. \<not> matches l UNRELEASED_REGEX \<and> \<not> startsWith l ''## ''"
    and "matches u UNRELEASED_REGEX"
    and "\<forall>l \<in> set mid. matches l UNRELEASED_REGEX \<or> \<not> matches l NEXT_VERSION_REGEX"
    and "matches v NEXT_VERSION_REGEX" and "\<not> matches v UNRELEASED_REGEX"
  shows "insertIndexOf (pre @ u # mid @ v # post) = length (pre @ u # mid)"
proof -
  have "findInsertIndex (pre @ u # mid @ v # post) 0 False
        = findInsertIndex (u # mid @ v # post) (length pre) False"
    using findInsertIndex_skip_preamble [OF assms(1), of "u # mid @ v # post" 0] by simp
  also have "\<dots> = findInsertIndex (mid @ v # post) (Suc (length pre)) True"
    using assms(2) by simp
  also have "\<dots> = findInsertIndex (v # post) (Suc (length pre) + length mid) True"
    using findInsertIndex_skip_unreleased [OF assms(3)] by simp
  also have "\<dots> = Some (Suc (length pre) + length mid)"
    using assms(4,5) by simp
  finally show ?thesis by (simp add: insertIndexOf_def)
qed

lemma insertIndexOf_first_heading:
  assumes "\<forall>l \<in> set pre. \<not> matches l UNRELEASED_REGEX \<and> \<not> startsWith l ''## ''"
    and "\<not> matches v UNRELEASED_REGEX" and "startsWith v ''## ''"
  shows "insertIndexOf (pre @ v # post) = length pre"
proof -
  have "findInsertIndex (pre @ v # post) 0 False = findInsertIndex (v # post) (length pre) False"
    using findInsertIndex_skip_preamble [OF assms(1), of "v # post" 0] by simp
  also have "\<dots> = Some (length pre)"
    using assms(2,3) by simp
  finally show ?thesis by (simp add: insertIndexOf_def)
qed

text \<open>
  C1 (as amended).  Let no line before the first Unreleased header match the Unreleased
  pattern or start with \<open>## \<close>.  If after that header a line \<open>v\<close> matches the
  version-header pattern of the writer and is not itself an Unreleased header, and every
  line between the two is an Unreleased header or no version header, then the rendered
  block and one empty line are spliced immediately before \<open>v\<close>.  And if no line of the
  text matches the Unreleased pattern and \<open>v\<close> is the first line that starts with
  \<open>## \<close>, the block and the empty line are spliced immediately before \<open>v\<close>.
\<close>

theorem insertVersion_precedence:
  "(split_nl e = pre @ u # mid @ v # post \<and>
    (\<forall>l \<in> set pre. \<not> matches l UNRELEASED_REGEX \<and> \<not> startsWith l ''## '') \<and>
    matches u UNRELEASED_REGEX \<and>
    (\<forall>l \<in> set mid. matches l UNRELEASED_REGEX \<or> \<not> matches l NEXT_VERSION_REGEX) \<and>
    matches v NEXT_VERSION_REGEX \<and> \<not> matches v UNRELEASED_REGEX
    \<longrightarrow> insertVersion e ver d c r =
          join [CHR 0x0A] (pre @ u # mid @ [formatVersion ver (Some d) c r, []] @ v # post))
   \<and>
   (split_nl e = pre @ v # post \<and>
    (\<forall>l \<in> set (split_nl e). \<not> matches l UNRELEASED_REGEX) \<and>
    (\<forall>l \<in> set pre. \<not> startsWith l ''## '') \<and> startsWith v ''## ''
    \<longrightarrow> insertVersion e ver d c r =
          join [CHR 0x0A] (pre @ [formatVersion ver (Some d) c r, []] @ v # post))"
proof (intro conjI impI)
  assume a: "split_nl e = pre @ u # mid @ v # post \<and>
    (\<forall>l \<in> set pre. \<not> matches l UNRELEASED_REGEX \<and> \<not> startsWith l ''## '') \<and>
    matches u UNRELEASED_REGEX \<and>
    (\<forall>l \<in> set mid. matches l UNRELEASED_REGEX \<or> \<not> matches l NEXT_VERSION_REGEX) \<and>
    matches v NEXT_VERSION_REGEX \<and> \<not> matches v UNRELEASED_REGEX"
  then have i: "insertIndexOf (pre @ u # mid @ v # post) = length (pre @ u # mid)"
    by (intro insertIndexOf_after_unreleased) blast+
  have "take (length (pre @ u # mid)) ((pre @ u # mid) @ v # post) = pre @ u # mid"
    and "drop (length (pre @ u # mid)) ((pre @ u # mid) @ v # post) = v # post"
    by simp_all
  with a i show "insertVersion e ver d c r =
          join [CHR 0x0A] (pre @ u # mid @ [formatVersion ver (Some d) c r, []] @ v # post)"
    by (simp add: insertVersion_def Let_def)
next
  assume b: "split_nl e = pre @ v # post \<and>
    (\<forall>l \<in> set (split_nl e). \<not> matches l UNRELEASED_REGEX) \<and>
    (\<forall>l \<in> set pre. \<not> startsWith l ''## '') \<and> startsWith v ''## ''"
  then have "insertIndexOf (pre @ v # post) = length pre"
    by (intro insertIndexOf_first_heading) auto
  with b show "insertVersion e ver d c r =
          join [CHR 0x0A] (pre @ [formatVersion ver (Some d) c r, []] @ v # post)"
    by (simp add: insertVersion_def Let_def)
qed

lemma sampleDoc_lines:
  "split_nl sampleDoc = [''# Changelog'', []] @ ''## [Unreleased]'' # [[]] @ ''## [1.0.0] - 2024-01-01''
     # [[], ''### Added'', [], ''- First release'', [],
      ''[1.0.0]: https://example.com/org/repo/releases/tag/1.0.0'']"
  by code_simp

lemma plainDoc_lines:
  "split_nl plainDoc = [''# Changelog'', []] @ ''## [1.0.0] - 2024-01-01''
     # [[], ''### Added'', [], ''- First release'']"
  by code_simp

theorem insertVersion_precedence_witness:
  "insertVersion sampleDoc ''1.1.0'' (Date 2024 3 9) emptyChanges None =
     join [CHR 0x0A] ([''# Changelog'', []] @ ''## [Unreleased]'' # [[]] @
        [formatVersion ''1.1.0'' (Some (Date 2024 3 9)) emptyChanges None, []] @
        ''## [1.0.0] - 2024-01-01'' # [[], ''### Added'', [], ''- First release'', [],
          ''[1.0.0]: https://example.com/org/repo/releases/tag/1.0.0''])
   \<and>
   insertVersion plainDoc ''1.1.0'' (Date 2024 3 9) emptyChanges None =
     join [CHR 0x0A] ([''# Changelog'', []] @
        [formatVersion ''1.1.0'' (Some (Date 2024 3 9)) emptyChanges None, []] @
        ''## [1.0.0] - 2024-01-01'' # [[], ''### Added'', [], ''- First release''])"
proof
  have 1: "\<forall>l \<in> set [''# Changelog'', []]. \<not> matches l UNRELEASED_REGEX \<and> \<not> startsWith l ''## ''"
    unfolding list_all_iff [symmetric] by code_simp
  have 2: "matches ''## [Unreleased]'' UNRELEASED_REGEX" by code_simp
  have 3: "\<forall>l \<in> set [[]]. matches l UNRELEASED_REGEX \<or> \<not> matches l NEXT_VERSION_REGEX"
    unfolding list_all_iff [symmetric] by code_simp
  have 4: "matches ''## [1.0.0] - 2024-01-01'' NEXT_VERSION_REGEX \<and>
           \<not> matches ''## [1.0.0] - 2024-01-01'' UNRELEASED_REGEX" by code_simp
  show "insertVersion sampleDoc ''1.1.0'' (Date 2024 3 9) emptyChanges None =
     join [CHR 0x0A] ([''# Changelog'', []] @ ''## [Unreleased]'' # [[]] @
        [formatVersion ''1.1.0'' (Some (Date 2024 3 9)) emptyChanges None, []] @
        ''## [1.0.0] - 2024-01-01'' # [[], ''### Added'', [], ''- First release'', [],
          ''[1.0.0]: https://example.com/org/repo/releases/tag/1.0.0''])"
    using insertVersion_precedence [THEN conjunct1, rule_format, OF conjI [OF sampleDoc_lines conjI [OF 1 conjI [OF 2 conjI [OF 3 4]]]]]
    by blast
next
  have 1: "\<forall>l \<in> set (split_nl plainDoc). \<not> matches l UNRELEASED_REGEX"
    unfolding list_all_iff [symmetric] by code_simp
  have 2: "\<forall>l \<in> set [''# Changelog'', []]. \<not> startsWith l ''## ''"
    unfolding list_all_iff [symmetric] by code_simp
  have 3: "startsWith ''## [1.0.0] - 2024-01-01'' ''## ''" by code_simp
  show "insertVersion plainDoc ''1.1.0'' (Date 2024 3 9) emptyChanges None =
     join [CHR 0x0A] ([''# Changelog'', []] @
        [formatVersion ''1.1.0'' (Some (Date 2024 3 9)) emptyChanges None, []] @
        ''## [1.0.0] - 2024-01-01'' # [[], ''### Added'', [], ''- First release''])"
    using insertVersion_precedence [THEN conjunct2, rule_format, OF conjI [OF plainDoc_lines conjI [OF 1 conjI [OF 2 3]]]]
    by blast
qed

text \<open>
  The claim as it was stated fails when a line starting with \<open>## \<close> comes before the
  Unreleased header: the scan stops at that line, and the block lands before it instead
  of between the Unreleased header and the first version.
\<close>

theorem insertVersion_precedence_counterexample:
  "matches (split_nl notesDoc ! 2) UNRELEASED_REGEX \<and>
   matches (split_nl notesDoc ! 3) NEXT_VERSION_REGEX \<and>
   split_nl (insertVersion notesDoc ''1.1.0'' (Date 2024 3 9) emptyChanges None) =
     [''# Changelog'', ''## [1.1.0] - 2024-03-09'', [], [],
      ''## Notes'', ''## [Unreleased]'', ''## [1.0.0] - 2024-01-01''] \<and>
   insertVersion notesDoc ''1.1.0'' (Date 2024 3 9) emptyChanges None \<noteq>
     join [CHR 0x0A]
       (take 3 (split_nl notesDoc)
        @ [formatVersion ''1.1.0'' (Some (Date 2024 3 9)) emptyChanges None, []]
        @ drop 3 (split_nl notesDoc))"
  by code_simp

text \<open>
  C5.  On a text whose only second-level heading is \<open>## [Unreleased]\<close>, with no version
  header after it, the first loop finds no insertion point and the second loop stops at
  the Unreleased header itself, which starts with \<open>## \<close>: the block is placed before
  the Unreleased header, not at the end of the text.
\<close>

theorem insertVersion_unreleased_tail:
  "matches (split_nl tailDoc ! 2) UNRELEASED_REGEX \<and>
   list_all (\<lambda>l. \<not> matches l NEXT_VERSION_REGEX) (drop 3 (split_nl tailDoc)) \<and>
   split_nl (insertVersion tailDoc ''1.0.0'' (Date 2024 3 9) emptyChanges None) =
     [''# Changelog'', [], ''## [1.0.0] - 2024-03-09'', [], [],
      ''## [Unreleased]'', [], ''- pending fix'']"
  by code_simp
section \<open>Facts about the patterns\<close>

lemma concat_map_concat_map:
  "concat (map f (concat (map g xs))) = concat (map (\<lambda>x. concat (map f (g x))) xs)"
  by (induction xs) simp_all

lemma run_Seq_assoc: "run (Seq (Seq a b) r) st = run (Seq a (Seq b r)) st"
proof -
  have e: "run (Seq b r) = (\<lambda>x. concat (map (run r) (run b x)))"
    by (rule ext) simp
  show ?thesis by (simp add: concat_map_concat_map e)
qed

lemma run_Seq_lit:
  "run (Seq (lit p) r) (s, c) =
     (if take (length p) s = p then run r (drop (length p) s, c) else [])"
proof (induction p arbitrary: s)
  case Nil
  show ?case by (simp add: lit_def seqs_def)
next
  case (Cons a p)
  have "run (Seq (lit (a # p)) r) (s, c) = run (Seq (chr a) (Seq (lit p) r)) (s, c)"
    unfolding lit_def seqs_def list.map foldr.simps o_apply by (rule run_Seq_assoc)
  also have "\<dots> = (case s of [] \<Rightarrow> []
                    | x # xs \<Rightarrow> if x = a then run (Seq (lit p) r) (xs, c) else [])"
    by (cases s) (simp_all add: chr_def)
  also have "\<dots> = (if take (length (a # p)) s = a # p
                    then run r (drop (length (a # p)) s, c) else [])"
    by (cases s) (simp_all add: Cons.IH del: run.simps(4))
  finally show ?case .
qed

lemma run_seqs_Cons: "run (seqs (a # rs)) st = run (Seq a (seqs rs)) st"
  by (simp add: seqs_def)

lemma match_Some_run: "match s r = Some m \<Longrightarrow> run r (s, Map.empty) \<noteq> []"
  by (auto simp: match_def firstOf_def)

lemma capture_Some: "capture s r n = Some g \<Longrightarrow> \<exists>m. match s r = Some m \<and> m n = Some g"
  by (auto simp: capture_def split: option.splits)

lemma category_line_shape:
  assumes "match h CATEGORY_HEADER_REGEX = Some m"
  shows "\<exists>rest. h = ''###'' @ rest"
proof -
  have "run CATEGORY_HEADER_REGEX (h, Map.empty) \<noteq> []"
    using assms by (rule match_Some_run)
  then have "take (length ''###'') h = ''###''"
    unfolding CATEGORY_HEADER_REGEX_def run_seqs_Cons run_Seq_lit
    by (simp split: if_splits del: run.simps)
  then show ?thesis by (metis append_take_drop_id)
qed

lemma entry_line_shape:
  assumes "match b ENTRY_REGEX = Some m"
  shows "\<exists>x rest. b = x # rest \<and> (x = CHR ''-'' \<or> x = CHR ''*'')"
proof -
  have "run ENTRY_REGEX (b, Map.empty) \<noteq> []"
    using assms by (rule match_Some_run)
  then show ?thesis
    unfolding ENTRY_REGEX_def run_seqs_Cons
    by (cases b) (auto split: if_splits)
qed

lemma not_version_header:
  "x \<noteq> CHR ''#'' \<Longrightarrow> match (x # rest) VERSION_HEADER_REGEX = None"
  "match [] VERSION_HEADER_REGEX = None"
  "match (''###'' @ rest) VERSION_HEADER_REGEX = None"
  by (simp_all add: match_def firstOf_def VERSION_HEADER_REGEX_def seqs_def lit_def chr_def
        oneOrMore_def isSpace_def)

lemma not_category_header:
  "x \<noteq> CHR ''#'' \<Longrightarrow> match (x # rest) CATEGORY_HEADER_REGEX = None"
  "match [] CATEGORY_HEADER_REGEX = None"
  by (simp_all add: match_def firstOf_def CATEGORY_HEADER_REGEX_def seqs_def lit_def chr_def)

lemma not_entry:
  "x \<noteq> CHR ''-'' \<Longrightarrow> x \<noteq> CHR ''*'' \<Longrightarrow> match (x # rest) ENTRY_REGEX = None"
  "match [] ENTRY_REGEX = None"
  by (simp_all add: match_def firstOf_def ENTRY_REGEX_def seqs_def)

text \<open>The first way of matching, stage by stage.\<close>

lemma firstOf_Cons: "firstOf (x # xs) = Some x"
  by (simp add: firstOf_def)

lemma firstOf_append: "firstOf xs = Some x \<Longrightarrow> firstOf (xs @ ys) = Some x"
  by (cases xs) (simp_all add: firstOf_def)

lemma firstOf_Seq:
  assumes "firstOf (run a st) = Some st1" and "firstOf (run r st1) = Some st2"
  shows "firstOf (run (Seq a r) st) = Some st2"
proof -
  from assms(1) obtain rest where "run a st = st1 # rest"
    by (cases "run a st") (simp_all add: firstOf_def)
  then have "run (Seq a r) st = run r st1 @ concat (map (run r) rest)" by simp
  with assms(2) show ?thesis by (simp add: firstOf_append)
qed

lemma firstOf_seqs:
  assumes "firstOf (run a st) = Some st1" and "firstOf (run (seqs rs) st1) = Some st2"
  shows "firstOf (run (seqs (a # rs)) st) = Some st2"
  unfolding run_seqs_Cons using assms by (rule firstOf_Seq)

lemma firstOf_seqs_Nil: "firstOf (run (seqs []) st) = Some st"
  by (simp add: seqs_def firstOf_def)

lemma firstOf_chr: "firstOf (run (chr x) (x # s, c)) = Some (s, c)"
  by (simp add: chr_def firstOf_def)

lemma run_Seq_Eps_right: "run (Seq a Eps) st = run a st"
proof -
  have "run Eps = (\<lambda>x. [x])" by (rule ext) simp
  moreover have "concat (map (\<lambda>x. [x]) xs) = xs" for xs :: "(string \<times> captures) list"
    by (induction xs) simp_all
  ultimately show ?thesis by simp
qed

lemma firstOf_lit: "firstOf (run (lit p) (p @ s, c)) = Some (s, c)"
proof -
  have "run (Seq (lit p) Eps) (p @ s, c) = [(s, c)]"
    unfolding run_Seq_lit by simp
  then show ?thesis by (simp only: run_Seq_Eps_right firstOf_Cons)
qed

lemma firstOf_Star:
  assumes "\<forall>x \<in> set xs. p x" and "rest = [] \<or> \<not> p (hd rest)"
  shows "firstOf (run (Star p) (xs @ rest, c)) = Some (rest, c)"
  using assms(1)
proof (induction xs)
  case Nil
  from assms(2) show ?case by (cases rest) (auto simp: firstOf_def)
next
  case (Cons x xs)
  then show ?case by (simp add: firstOf_append)
qed

lemma firstOf_oneOrMore:
  assumes "xs \<noteq> []" and "\<forall>x \<in> set xs. p x" and "rest = [] \<or> \<not> p (hd rest)"
  shows "firstOf (run (oneOrMore p) (xs @ rest, c)) = Some (rest, c)"
proof -
  from assms(1) obtain y ys where xs: "xs = y # ys" by (cases xs) auto
  with assms(2) have y: "p y" and ys: "\<forall>x \<in> set ys. p x" by auto
  have "firstOf (run (Chr p) (xs @ rest, c)) = Some (ys @ rest, c)"
    using y by (simp add: xs firstOf_def)
  then show ?thesis
    unfolding oneOrMore_def
    by (rule firstOf_Seq) (rule firstOf_Star [OF ys assms(3)])
qed

lemma firstOf_Opt: "firstOf (run a st) = Some st1 \<Longrightarrow> firstOf (run (Opt a) st) = Some st1"
  by (simp add: firstOf_append)

lemma firstOf_Alt: "firstOf (run a st) = Some st1 \<Longrightarrow> firstOf (run (Alt a b) st) = Some st1"
  by (simp add: firstOf_append)

lemma firstOf_Group:
  assumes "firstOf (run a (xs @ rest, c)) = Some (rest, c')"
  shows "firstOf (run (Group n a) (xs @ rest, c)) = Some (rest, c'(n \<mapsto> xs))"
proof -
  from assms obtain more where "run a (xs @ rest, c) = (rest, c') # more"
    by (cases "run a (xs @ rest, c)") (simp_all add: firstOf_def)
  then show ?thesis by (simp add: firstOf_def)
qed

lemma match_firstOf:
  "firstOf (run r (s, Map.empty)) = Some (s', m) \<Longrightarrow> match s r = Some m"
  by (simp add: match_def)

section \<open>The parser has no error path\<close>

lemma run_dom_mono:
  "(s', c') \<in> set (run r (s, c)) \<Longrightarrow> dom c \<subseteq> dom c'"
proof (induction r "(s, c)" arbitrary: s c s' c' rule: run.induct)
  case (4 a b)
  from "4.prems" obtain s1 c1 where 1: "(s1, c1) \<in> set (run a (s, c))"
    and 2: "(s', c') \<in> set (run b (s1, c1))" by auto
  from "4.hyps"(1) [OF 1] "4.hyps"(2) [OF 1 2] show ?case by blast
next
  case (5 a b)
  from "5.prems" have "(s', c') \<in> set (run a (s, c)) \<or> (s', c') \<in> set (run b (s, c))"
    by simp
  then show ?case using "5.hyps" by blast
next
  case (6 a)
  from "6.prems" have "(s', c') \<in> set (run a (s, c)) \<or> (s', c') = (s, c)"
    by auto
  then show ?case using "6.hyps" by blast
next
  case (8 p x xs c)
  from "8.prems" have "(p x \<and> (s', c') \<in> set (run (Star p) (xs, c))) \<or> c' = c"
    by (auto split: if_splits)
  then show ?case using "8.hyps" by blast
next
  case (9 n a s c)
  from "9.prems" obtain c1 where 1: "(s', c1) \<in> set (run a (s, c))"
    and 2: "c' = c1(n \<mapsto> take (length s - length s') s)" by auto
  from "9.hyps" [OF 1] 2 show ?case by auto
qed (auto split: if_splits)

lemma binds_Group: "binds n (Group n a)"
  by (auto simp: binds_def)

lemma binds_Seq1: "binds n a \<Longrightarrow> binds n (Seq a b)"
proof -
  assume a: "binds n a"
  show ?thesis
    unfolding binds_def
  proof (intro allI impI)
    fix s c s' c'
    assume "(s', c') \<in> set (run (Seq a b) (s, c))"
    then obtain s1 c1 where 1: "(s1, c1) \<in> set (run a (s, c))"
      and 2: "(s', c') \<in> set (run b (s1, c1))" by auto
    from a 1 have "n \<in> dom c1" unfolding binds_def by blast
    with run_dom_mono [OF 2] show "n \<in> dom c'" by blast
  qed
qed

lemma binds_Seq2: "binds n b \<Longrightarrow> binds n (Seq a b)"
proof -
  assume b: "binds n b"
  show ?thesis
    unfolding binds_def
  proof (intro allI impI)
    fix s c s' c'
    assume "(s', c') \<in> set (run (Seq a b) (s, c))"
    then obtain s1 c1 where 1: "(s1, c1) \<in> set (run a (s, c))"
      and 2: "(s', c') \<in> set (run b (s1, c1))" by auto
    from b 2 show "n \<in> dom c'" unfolding binds_def by blast
  qed
qed

lemma binds_match: "binds n r \<Longrightarrow> match s r = Some m \<Longrightarrow> \<exists>g. m n = Some g"
proof -
  assume b: "binds n r" and m: "match s r = Some m"
  from m obtain s' rest where "run r (s, Map.empty) = (s', m) # rest"
    by (auto simp: match_def firstOf_def split: list.splits)
  then have "(s', m) \<in> set (run r (s, Map.empty))" by simp
  with b have "n \<in> dom m" unfolding binds_def by blast
  then show ?thesis by blast
qed

lemma binds_VERSION: "binds 1 VERSION_HEADER_REGEX"
  unfolding VERSION_HEADER_REGEX_def seqs_def
  by (simp add: binds_Group binds_Seq1 binds_Seq2)

lemma binds_CATEGORY: "binds 1 CATEGORY_HEADER_REGEX"
  unfolding CATEGORY_HEADER_REGEX_def seqs_def
  by (simp add: binds_Group binds_Seq1 binds_Seq2)

lemma binds_ENTRY: "binds 1 ENTRY_REGEX"
  unfolding ENTRY_REGEX_def seqs_def
  by (simp add: binds_Group binds_Seq1 binds_Seq2)


lemma versionStep_total:
  assumes "match line VERSION_HEADER_REGEX = Some m"
  shows "\<exists>st'. versionStep m st = Inr st'"
proof -
  obtain g where "m 1 = Some g" using binds_match [OF binds_VERSION assms] by blast
  then show ?thesis by (simp add: versionStep_def group_def Let_def)
qed

lemma categoryStep_total:
  assumes "match line CATEGORY_HEADER_REGEX = Some m"
  shows "\<exists>st'. categoryStep m st = Inr st'"
proof -
  obtain g where "m 1 = Some g" using binds_match [OF binds_CATEGORY assms] by blast
  then show ?thesis by (simp add: categoryStep_def group_def Let_def split: option.splits)
qed

lemma entryStep_total: "\<exists>st'. entryStep line st = Inr st'"
proof (cases "match line ENTRY_REGEX")
  case None
  then show ?thesis by (simp add: entryStep_def)
next
  case (Some m)
  obtain g where "m 1 = Some g" using binds_match [OF binds_ENTRY Some] by blast
  with Some show ?thesis
    by (simp add: entryStep_def group_def split: option.splits)
qed

lemma step_total: "\<exists>st'. step i line st = Inr st'"
  unfolding step_def
  using versionStep_total categoryStep_total entryStep_total
  by (simp split: option.splits)

lemma parseLoop_total: "\<exists>st'. parseLoop i ls st = Inr st'"
proof (induction ls arbitrary: i st)
  case Nil
  show ?case by simp
next
  case (Cons l ls)
  obtain st1 where "step i l st = Inr st1" using step_total by blast
  with Cons show ?case by simp
qed

text \<open>
  C8.  \<open>parseChangelog\<close> returns a document for every input: the only operation that
  could throw, \<open>trim\<close> on a capture group, is always applied to a group that took part
  in the match.  For the empty string the document has the title \<open>Changelog\<close>, an empty
  preamble and no versions.
\<close>

theorem parseChangelog_total:
  "(\<exists>doc. parseChangelog content = Inr doc) \<and>
   parseChangelog [] = Inr \<lparr>title = ''Changelog'', doc_description = [], versions = []\<rparr>"
proof
  obtain st where "parseLoop 0 (split_nl content) initial = Inr st"
    using parseLoop_total by blast
  then show "\<exists>doc. parseChangelog content = Inr doc"
    by (simp add: parseChangelog_def)
next
  show "parseChangelog [] = Inr \<lparr>title = ''Changelog'', doc_description = [], versions = []\<rparr>"
    by code_simp
qed

section \<open>The title\<close>

lemma versionStep_title: "versionStep m st = Inr st' \<Longrightarrow> p_title st' = p_title st"
  by (auto simp: versionStep_def Let_def split: sum.splits option.splits if_splits)

lemma categoryStep_title: "categoryStep m st = Inr st' \<Longrightarrow> p_title st' = p_title st"
  by (auto simp: categoryStep_def Let_def split: sum.splits option.splits)

lemma entryStep_title: "entryStep line st = Inr st' \<Longrightarrow> p_title st' = p_title st"
  by (auto simp: entryStep_def split: sum.splits option.splits if_splits)

lemma step_title:
  "step i line st = Inr st' \<Longrightarrow>
   p_title st' = (if startsWith line ''# '' \<and> i < 5 then trim (drop 2 line) else p_title st)"
  unfolding step_def
  by (auto split: if_splits option.splits
           dest: versionStep_title categoryStep_title entryStep_title)

lemma parseLoop_title:
  "parseLoop i ls st = Inr st' \<Longrightarrow>
   p_title st' = (case filter (\<lambda>l. startsWith l ''# '') (take (5 - i) ls) of
                    [] \<Rightarrow> p_title st
                  | t # ts \<Rightarrow> trim (drop 2 (last (t # ts))))"
proof (induction ls arbitrary: i st)
  case Nil
  then show ?case by simp
next
  case (Cons l ls)
  from Cons.prems obtain st1 where s1: "step i l st = Inr st1"
    and r: "parseLoop (Suc i) ls st1 = Inr st'"
    by (auto split: sum.splits)
  note ih = Cons.IH [OF r]
  note t1 = step_title [OF s1]
  show ?case
  proof (cases "i < 5")
    case True
    then have "5 - i = Suc (5 - Suc i)" by simp
    then have tk: "take (5 - i) (l # ls) = l # take (5 - Suc i) ls"
      by (simp only: take_Suc_Cons)
    show ?thesis
      using ih t1 True unfolding tk
      by (auto split: list.splits)
  next
    case False
    then show ?thesis using ih t1 by simp
  qed
qed

text \<open>
  C7 (as amended).  Every line that starts with \<open># \<close> at an index below 5 sets the
  title, whether or not a version header came before it, and no other line does: the
  title of the parsed document is the trimmed text after \<open># \<close> of the last such line
  among the first five lines, and \<open>Changelog\<close> when there is none.
\<close>

theorem title_rule:
  "\<exists>doc. parseChangelog content = Inr doc \<and>
     title doc = (case filter (\<lambda>l. startsWith l ''# '') (take 5 (split_nl content)) of
                    [] \<Rightarrow> ''Changelog''
                  | t # ts \<Rightarrow> trim (drop 2 (last (t # ts))))"
proof -
  obtain st where st: "parseLoop 0 (split_nl content) initial = Inr st"
    using parseLoop_total by blast
  from parseLoop_title [OF st] have
    "p_title st = (case filter (\<lambda>l. startsWith l ''# '') (take 5 (split_nl content)) of
                    [] \<Rightarrow> ''Changelog''
                  | t # ts \<Rightarrow> trim (drop 2 (last (t # ts))))"
    by (simp add: initial_def cong: list.case_cong)
  with st show ?thesis by (simp add: parseChangelog_def)
qed

text \<open>
  The claim as it was stated fails for a line starting with \<open># \<close> that follows a
  version header within the first five lines: it sets the title.
\<close>

theorem title_rule_counterexample:
  "matches (split_nl lateTitleDoc ! 0) VERSION_HEADER_REGEX \<and>
   startsWith (split_nl lateTitleDoc ! 1) ''# '' \<and>
   parseChangelog lateTitleDoc =
     Inr \<lparr>title = ''Late title'', doc_description = [],
          versions = [\<lparr>version = ''1.0.0'', date = Some (Date 2024 1 1), entries = []\<rparr>]\<rparr>"
  by code_simp

section \<open>Version headers without a date\<close>

text \<open>
  C3.  The separator \<open>(?:\s*-\s*|\s+)\<close> of the version-header pattern is not optional:
  a heading \<open>## [label]\<close> with nothing after the bracket is no version header for the
  parser unless the label itself holds a dash or white space.  The lines \<open>## [1.0.0]\<close>
  and \<open>## [Unreleased]\<close>, which the formatter of this program writes, open no version
  section.
\<close>

theorem dateless_header_not_recognized:
  "match ''## [1.0.0]'' VERSION_HEADER_REGEX = None \<and>
   parseChangelog ''## [1.0.0]'' =
     Inr \<lparr>title = ''Changelog'', doc_description = [], versions = []\<rparr> \<and>
   match ''## [Unreleased]'' VERSION_HEADER_REGEX = None \<and>
   parseChangelog ''## [Unreleased]'' =
     Inr \<lparr>title = ''Changelog'', doc_description = [], versions = []\<rparr>"
  by code_simp

section \<open>Category headings and bullets\<close>

lemma step_category_header:
  assumes "capture h CATEGORY_HEADER_REGEX 1 = Some g" and "currentVersion st = Some v"
  shows "step i h st =
           Inr (case find (\<lambda>cat. toLowerCase (categoryName cat) = toLowerCase (trim g))
                       VALID_CATEGORIES of
                  Some cat \<Rightarrow> st\<lparr>currentCategory := Some cat\<rparr>
                | None \<Rightarrow> st)"
proof -
  from capture_Some [OF assms(1)] obtain m
    where m: "match h CATEGORY_HEADER_REGEX = Some m" and g: "m 1 = Some g" by blast
  from category_line_shape [OF m] obtain rest where h: "h = ''###'' @ rest" by blast
  have "\<not> startsWith h ''# ''" by (simp add: h startsWith_def)
  moreover have "match h VERSION_HEADER_REGEX = None"
    unfolding h by (rule not_version_header)
  ultimately show ?thesis
    using m g assms(2)
    by (simp add: step_def categoryStep_def group_def Let_def split: option.splits)
qed

lemma step_entry:
  assumes "capture b ENTRY_REGEX 1 = Some t"
    and "currentVersion st = Some v" and "currentCategory st = Some cat"
  shows "step i b st =
           Inr (st\<lparr>currentVersion := Some (v\<lparr>entries := entries v @
                  [\<lparr>category = cat, description = trim t, commits = []\<rparr>]\<rparr>)\<rparr>)"
proof -
  from capture_Some [OF assms(1)] obtain m
    where m: "match b ENTRY_REGEX = Some m" and t: "m 1 = Some t" by blast
  from entry_line_shape [OF m] obtain x rest
    where b: "b = x # rest" and x: "x = CHR ''-'' \<or> x = CHR ''*''" by blast
  from x have "\<not> startsWith b ''# ''" by (auto simp: b startsWith_def)
  moreover from x have "match b VERSION_HEADER_REGEX = None"
    unfolding b by (intro not_version_header) auto
  moreover from x have "match b CATEGORY_HEADER_REGEX = None"
    unfolding b by (intro not_category_header) auto
  ultimately show ?thesis
    using m t assms(2,3)
    by (simp add: step_def entryStep_def group_def)
qed















section \<open>Formatting and parsing back\<close>

text \<open>The digits of a formatted date.\<close>

lemma isDigit_char_of: "isDigit (char_of (48 + k mod 10 :: nat))"
proof -
  have "(48 + k mod 10) mod 256 = 48 + k mod 10" by simp
  then show ?thesis by (simp add: isDigit_def)
qed

lemma digit_value: "of_char (char_of (48 + k mod 10 :: nat)) - 48 = (k mod 10 :: nat)"
proof -
  have "(48 + k mod 10) mod 256 = 48 + k mod 10" by simp
  then show ?thesis by simp
qed

lemma pad4: "pad 4 k = [char_of (48 + k div 10 div 10 div 10 mod 10),
                        char_of (48 + k div 10 div 10 mod 10),
                        char_of (48 + k div 10 mod 10), char_of (48 + k mod 10)]"
proof -
  have n: "(4::nat) = Suc (Suc (Suc (Suc 0)))" by simp
  show ?thesis unfolding n by (simp only: pad.simps append.simps)
qed

lemma pad2: "pad 2 k = [char_of (48 + k div 10 mod 10), char_of (48 + k mod 10)]"
proof -
  have n: "(2::nat) = Suc (Suc 0)" by simp
  show ?thesis unfolding n by (simp only: pad.simps append.simps)
qed

lemma length_pad: "length (pad n k) = n"
  by (induction n arbitrary: k) simp_all

lemma number_snoc: "number (xs @ [x]) = 10 * number xs + (of_char x - 48)"
  by (simp add: number_def)

lemma number_pad: "number (pad n k) = k mod 10 ^ n"
proof (induction n arbitrary: k)
  case 0
  show ?case by (simp add: number_def)
next
  case (Suc n)
  have "number (pad (Suc n) k) = 10 * (k div 10 mod 10 ^ n) + k mod 10"
    by (simp only: pad.simps number_snoc Suc.IH digit_value)
  also have "\<dots> = k mod (10 * 10 ^ n)"
    by (simp only: mod_mult2_eq)
  finally show ?case by simp
qed

lemma formatDate_digits:
  assumes "0 \<le> year d" and "year d \<le> 9999"
  shows "formatDate d =
    [char_of (48 + nat (year d) div 10 div 10 div 10 mod 10),
     char_of (48 + nat (year d) div 10 div 10 mod 10),
     char_of (48 + nat (year d) div 10 mod 10), char_of (48 + nat (year d) mod 10),
     CHR ''-'',
     char_of (48 + month d div 10 mod 10), char_of (48 + month d mod 10),
     CHR ''-'',
     char_of (48 + day d div 10 mod 10), char_of (48 + day d mod 10)]"
  using assms by (simp add: formatDate_def pad4 pad2)

lemma date_pattern_first:
  assumes "0 \<le> year d" and "year d \<le> 9999"
  shows "firstOf (run (seqs [digit, digit, digit, digit, chr CHR ''-'', digit, digit,
                             chr CHR ''-'', digit, digit]) (formatDate d @ [], c))
         = Some ([], c)"
  unfolding formatDate_digits [OF assms]
  by (simp add: seqs_def digit_def chr_def isDigit_char_of firstOf_def)

lemma newDate_formatDate:
  assumes "0 \<le> year d" and "year d \<le> 9999" and "month d \<le> 12" and "day d \<le> 31"
  shows "newDate (formatDate d) = d"
proof -
  have f: "formatDate d = pad 4 (nat (year d)) @ ''-'' @ pad 2 (month d) @ ''-'' @ pad 2 (day d)"
    using assms by (simp add: formatDate_def)
  have 1: "take 4 (formatDate d) = pad 4 (nat (year d))"
    unfolding f by (simp add: length_pad)
  have 2: "take 2 (drop 5 (formatDate d)) = pad 2 (month d)"
    unfolding f by (simp add: length_pad)
  have 3: "take 2 (drop 8 (formatDate d)) = pad 2 (day d)"
    unfolding f by (simp add: length_pad)
  have "nat (year d) mod 10 ^ 4 = nat (year d)" using assms by simp
  moreover have "month d mod 10 ^ 2 = month d" using assms by simp
  moreover have "day d mod 10 ^ 2 = day d" using assms by simp
  ultimately have "newDate (formatDate d) = Date (year d) (month d) (day d)"
    using assms(1) by (simp add: newDate_def 1 2 3 number_pad)
  then show ?thesis by simp
qed

lemma isDigit_not_isSpace: "isDigit x \<Longrightarrow> \<not> isSpace x"
  by (auto simp: isSpace_def isDigit_def)

lemma header_match:
  assumes "label \<noteq> []" and "CHR '']'' \<notin> set label"
    and "0 \<le> year d" and "year d \<le> 9999"
  shows "match (''## ['' @ label @ '']'' @ '' - '' @ formatDate d) VERSION_HEADER_REGEX
         = Some [1 \<mapsto> label, 2 \<mapsto> formatDate d]"
proof -
  let ?iso = "formatDate d"
  let ?c1 = "[1 \<mapsto> label] :: captures"
  have iso0: "?iso \<noteq> [] \<and> \<not> isSpace (hd ?iso)"
    unfolding formatDate_digits [OF assms(3,4)]
    using isDigit_not_isSpace [OF isDigit_char_of [of "nat (year d) div 10 div 10 div 10"]]
    by simp
  have s7: "firstOf (run (seqs [Opt (Group 2 (seqs [digit, digit, digit, digit, chr CHR ''-'',
              digit, digit, chr CHR ''-'', digit, digit]))]) (?iso, ?c1))
            = Some ([], ?c1(2 \<mapsto> ?iso))"
    apply (rule firstOf_seqs [OF _ firstOf_seqs_Nil])
    apply (rule firstOf_Opt)
    using firstOf_Group [OF date_pattern_first [OF assms(3,4)], of 2 ?c1]
    apply simp
    done
  have sep: "firstOf (run (seqs [Star isSpace, chr CHR ''-'', Star isSpace])
               ('' - '' @ ?iso, ?c1)) = Some (?iso, ?c1)"
    apply (rule firstOf_seqs [where ?st1.0 = "(''- '' @ ?iso, ?c1)"])
    using firstOf_Star [of "'' ''" isSpace "''- '' @ ?iso" ?c1] apply (simp add: isSpace_def)
    apply (rule firstOf_seqs [where ?st1.0 = "('' '' @ ?iso, ?c1)"])
    using firstOf_chr [of "CHR ''-''" "'' '' @ ?iso" ?c1] apply simp
    apply (rule firstOf_seqs [OF _ firstOf_seqs_Nil])
    using firstOf_Star [of "'' ''" isSpace ?iso ?c1] iso0 apply (simp add: isSpace_def)
    done
  have s6: "firstOf (run (seqs [Alt (seqs [Star isSpace, chr CHR ''-'', Star isSpace])
                (oneOrMore isSpace),
              Opt (Group 2 (seqs [digit, digit, digit, digit, chr CHR ''-'',
              digit, digit, chr CHR ''-'', digit, digit]))]) ('' - '' @ ?iso, ?c1))
            = Some ([], ?c1(2 \<mapsto> ?iso))"
    by (rule firstOf_seqs [OF firstOf_Alt [OF sep] s7])
  have s5: "firstOf (run (seqs [Opt (chr CHR '']''),
              Alt (seqs [Star isSpace, chr CHR ''-'', Star isSpace]) (oneOrMore isSpace),
              Opt (Group 2 (seqs [digit, digit, digit, digit, chr CHR ''-'',
              digit, digit, chr CHR ''-'', digit, digit]))]) ('']'' @ '' - '' @ ?iso, ?c1))
            = Some ([], ?c1(2 \<mapsto> ?iso))"
    apply (rule firstOf_seqs [OF _ s6])
    apply (rule firstOf_Opt)
    using firstOf_chr [of "CHR '']''" "'' - '' @ ?iso" ?c1] apply simp
    done
  have g1: "firstOf (run (Group 1 (oneOrMore (\<lambda>c. c \<noteq> CHR '']'')))
               (label @ ('']'' @ '' - '' @ ?iso), Map.empty))
            = Some ('']'' @ '' - '' @ ?iso, ?c1)"
    apply (rule firstOf_Group)
    apply (rule firstOf_oneOrMore)
    using assms(1,2) apply auto
    done
  have s4: "firstOf (run (seqs [Group 1 (oneOrMore (\<lambda>c. c \<noteq> CHR '']'')),
              Opt (chr CHR '']''),
              Alt (seqs [Star isSpace, chr CHR ''-'', Star isSpace]) (oneOrMore isSpace),
              Opt (Group 2 (seqs [digit, digit, digit, digit, chr CHR ''-'',
              digit, digit, chr CHR ''-'', digit, digit]))])
              (label @ ('']'' @ '' - '' @ ?iso), Map.empty))
            = Some ([], ?c1(2 \<mapsto> ?iso))"
    by (rule firstOf_seqs [OF g1 s5])
  have s3: "firstOf (run (seqs [Opt (chr CHR ''[''),
              Group 1 (oneOrMore (\<lambda>c. c \<noteq> CHR '']'')),
              Opt (chr CHR '']''),
              Alt (seqs [Star isSpace, chr CHR ''-'', Star isSpace]) (oneOrMore isSpace),
              Opt (Group 2 (seqs [digit, digit, digit, digit, chr CHR ''-'',
              digit, digit, chr CHR ''-'', digit, digit]))])
              (''['' @ label @ ('']'' @ '' - '' @ ?iso), Map.empty))
            = Some ([], ?c1(2 \<mapsto> ?iso))"
    apply (rule firstOf_seqs [OF _ s4])
    apply (rule firstOf_Opt)
    using firstOf_chr [of "CHR ''[''" "label @ ('']'' @ '' - '' @ ?iso)" Map.empty] apply simp
    done
  have s2: "firstOf (run (seqs [oneOrMore isSpace, Opt (chr CHR ''[''),
              Group 1 (oneOrMore (\<lambda>c. c \<noteq> CHR '']'')),
              Opt (chr CHR '']''),
              Alt (seqs [Star isSpace, chr CHR ''-'', Star isSpace]) (oneOrMore isSpace),
              Opt (Group 2 (seqs [digit, digit, digit, digit, chr CHR ''-'',
              digit, digit, chr CHR ''-'', digit, digit]))])
              ('' '' @ (''['' @ label @ ('']'' @ '' - '' @ ?iso)), Map.empty))
            = Some ([], ?c1(2 \<mapsto> ?iso))"
    apply (rule firstOf_seqs [OF _ s3])
    apply (rule firstOf_oneOrMore)
    apply (simp_all add: isSpace_def)
    done
  have s1: "firstOf (run VERSION_HEADER_REGEX
              (''##'' @ ('' '' @ (''['' @ label @ ('']'' @ '' - '' @ ?iso))), Map.empty))
            = Some ([], ?c1(2 \<mapsto> ?iso))"
    unfolding VERSION_HEADER_REGEX_def
    by (rule firstOf_seqs [OF firstOf_lit s2])
  have "match (''##'' @ ('' '' @ (''['' @ label @ ('']'' @ '' - '' @ ?iso)))) VERSION_HEADER_REGEX
        = Some (?c1(2 \<mapsto> ?iso))"
    by (rule match_firstOf [OF s1])
  then show ?thesis by simp
qed

lemma category_headers_all:
  "list_all (\<lambda>cat. capture (''### '' @ categoryName cat) CATEGORY_HEADER_REGEX 1
                      = Some (categoryName cat) \<and>
                    find (\<lambda>c. toLowerCase (categoryName c)
                                = toLowerCase (trim (categoryName cat))) VALID_CATEGORIES
                      = Some cat)
     [Added, Changed, Deprecated, Removed, Fixed, Security]"
  by code_simp

lemma category_header_capture:
  "capture (''### '' @ categoryName cat) CATEGORY_HEADER_REGEX 1 = Some (categoryName cat)"
  using category_headers_all by (cases cat) simp_all

lemma category_header_find:
  "find (\<lambda>c. toLowerCase (categoryName c) = toLowerCase (trim (categoryName cat)))
     VALID_CATEGORIES = Some cat"
  using category_headers_all by (cases cat) simp_all

lemma trim_fixed_hd:
  assumes "trim x = x" and "x \<noteq> []"
  shows "\<not> isSpace (hd x)"
proof
  assume sp: "isSpace (hd x)"
  from assms(2) obtain a t where x: "x = a # t" by (cases x) auto
  have "length (trim x) \<le> length (dropWhile isSpace x)"
    unfolding trim_def using length_dropWhile_le [of isSpace "rev (dropWhile isSpace x)"]
    by simp
  also have "\<dots> = length (dropWhile isSpace t)" using sp by (simp add: x)
  also have "\<dots> \<le> length t" by (rule length_dropWhile_le)
  finally have "length (trim x) < length x" by (simp add: x)
  with assms(1) show False by simp
qed

lemma entry_capture:
  assumes "x \<noteq> []" and "\<forall>ch \<in> set x. \<not> isLineTerminator ch" and "trim x = x"
  shows "capture (''- '' @ x) ENTRY_REGEX 1 = Some x"
proof -
  let ?c1 = "[1 \<mapsto> x] :: captures"
  have s4: "firstOf (run (seqs [Eoi]) ([], ?c1)) = Some ([], ?c1)"
    by (simp add: seqs_def firstOf_def)
  have g: "firstOf (run (Group 1 (oneOrMore dot)) (x @ [], Map.empty)) = Some ([], ?c1)"
    apply (rule firstOf_Group)
    apply (rule firstOf_oneOrMore)
    using assms(1,2) apply (simp_all add: dot_def)
    done
  have s3: "firstOf (run (seqs [Group 1 (oneOrMore dot), Eoi]) (x @ [], Map.empty))
            = Some ([], ?c1)"
    by (rule firstOf_seqs [OF g s4])
  have s2: "firstOf (run (seqs [oneOrMore isSpace, Group 1 (oneOrMore dot), Eoi])
              ('' '' @ (x @ []), Map.empty)) = Some ([], ?c1)"
    apply (rule firstOf_seqs [OF _ s3])
    apply (rule firstOf_oneOrMore)
    using trim_fixed_hd [OF assms(3,1)] apply (simp_all add: isSpace_def)
    done
  have s1: "firstOf (run ENTRY_REGEX (CHR ''-'' # ('' '' @ (x @ [])), Map.empty))
            = Some ([], ?c1)"
    unfolding ENTRY_REGEX_def
    apply (rule firstOf_seqs [OF _ s2])
    apply (simp add: firstOf_def)
    done
  have "match (CHR ''-'' # ('' '' @ (x @ []))) ENTRY_REGEX = Some ?c1"
    by (rule match_firstOf [OF s1])
  then show ?thesis by (simp add: capture_def)
qed

lemma step_blank: "\<not> inPreamble st \<Longrightarrow> step i [] st = Inr st"
  by (simp add: step_def entryStep_def startsWith_def not_version_header not_category_header
        not_entry)

lemma step_category_line:
  assumes "currentVersion st = Some v"
  shows "step i (''### '' @ categoryName cat) st = Inr (st\<lparr>currentCategory := Some cat\<rparr>)"
  using step_category_header [OF category_header_capture assms, of i cat]
  by (simp add: category_header_find)

lemma step_entry_line:
  assumes "currentVersion st = Some v" and "currentCategory st = Some cat"
    and "x \<noteq> []" and "\<forall>ch \<in> set x. \<not> isLineTerminator ch" and "trim x = x"
  shows "step i (''- '' @ x) st =
           Inr (st\<lparr>currentVersion := Some (v\<lparr>entries := entries v @
                  [\<lparr>category = cat, description = x, commits = []\<rparr>]\<rparr>)\<rparr>)"
  using step_entry [OF entry_capture [OF assms(3,4,5)] assms(1,2), of i] assms(5)
  by simp

lemma trim_nonempty: "\<not> isSpace a \<Longrightarrow> trim (a # t) \<noteq> []"
  by (auto simp: trim_def dropWhile_eq_Nil_conv)

lemma categoryName_no_newline: "CHR 0x0A \<notin> set (categoryName cat)"
  by (cases cat) simp_all

lemma formatEntry_plain:
  "formatEntry \<lparr>category = cat, description = x, commits = []\<rparr> repoUrl = ''- '' @ x"
  by (simp add: formatEntry_def Let_def split: option.splits)

lemma section_lines:
  assumes "\<forall>x \<in> set (categories cc cat). CHR 0x0A \<notin> set x"
  shows "concat (map split_nl (categorySections cc repoUrl cat)) =
           (if categories cc cat \<noteq> []
            then (''### '' @ categoryName cat) # [] #
                 map (\<lambda>x. ''- '' @ x) (categories cc cat) @ [[]]
            else [])"
proof -
  have h: "split_nl (''### '' @ categoryName cat @ [CHR 0x0A]) = [''### '' @ categoryName cat, []]"
    using split_nl_append [of "''### '' @ categoryName cat" "[]"]
    by (simp add: split_nl_line categoryName_no_newline)
  have "\<forall>l \<in> set (map (\<lambda>x. ''- '' @ x) (categories cc cat)). CHR 0x0A \<notin> set l"
    using assms by auto
  then have e: "concat (map split_nl (map (\<lambda>x. ''- '' @ x) (categories cc cat)))
                = map (\<lambda>x. ''- '' @ x) (categories cc cat)"
    by (rule concat_split_nl_lines)
  show ?thesis
    using h e by (simp add: categorySections_def Let_def formatEntry_plain o_def)
qed

lemma concat_hd_property:
  assumes "\<forall>x \<in> set xs. f x = [] \<or> P (hd (f x))" and "concat (map f xs) \<noteq> []"
  shows "P (hd (concat (map f xs)))"
  using assms by (induction xs) (auto simp: hd_append)

lemma sections_start:
  assumes "concat (map (categorySections cc repoUrl) cats) \<noteq> []"
  shows "\<exists>t. hd (concat (map (categorySections cc repoUrl) cats)) = CHR ''#'' # t"
proof -
  have "\<forall>cat \<in> set cats. categorySections cc repoUrl cat = [] \<or>
          (\<exists>t. hd (categorySections cc repoUrl cat) = CHR ''#'' # t)"
    by (simp add: categorySections_def Let_def)
  from concat_hd_property [of cats "categorySections cc repoUrl" "\<lambda>s. \<exists>t. s = CHR ''#'' # t",
      OF this assms]
  show ?thesis .
qed

lemma join_hd: "xs \<noteq> [] \<Longrightarrow> \<exists>t. join sep xs = hd xs @ t"
proof (cases xs)
  case Nil
  assume "xs \<noteq> []"
  with Nil show ?thesis by simp
next
  case (Cons x ys)
  then show ?thesis by (cases ys) simp_all
qed

lemma entriesContent_trim:
  "(trim (formatAIEntries cc repoUrl) \<noteq> []) =
   (concat (map (categorySections cc repoUrl) CATEGORY_ORDER) \<noteq> [])"
proof (cases "concat (map (categorySections cc repoUrl) CATEGORY_ORDER) = []")
  case True
  have "formatAIEntries cc repoUrl = []"
    by (simp only: formatAIEntries_def True join.simps)
  with True show ?thesis by (simp add: trim_def)
next
  case False
  from sections_start [OF False] obtain t
    where "hd (concat (map (categorySections cc repoUrl) CATEGORY_ORDER)) = CHR ''#'' # t"
    by blast
  with join_hd [OF False, of "[CHR 0x0A]"] obtain t'
    where "formatAIEntries cc repoUrl = CHR ''#'' # t'"
    by (auto simp: formatAIEntries_def)
  with False show ?thesis by (simp add: trim_nonempty isSpace_def)
qed

lemma formatDate_no_newline:
  assumes "0 \<le> year d" and "year d \<le> 9999"
  shows "CHR 0x0A \<notin> set (formatDate d)"
proof -
  have "\<forall>x \<in> set (formatDate d). isDigit x \<or> x = CHR ''-''"
    unfolding formatDate_digits [OF assms] by (simp add: isDigit_char_of)
  moreover have "\<not> isDigit (CHR 0x0A)" by (simp add: isDigit_def)
  ultimately show ?thesis by auto
qed

lemma formatVersion_lines:
  assumes "CHR 0x0A \<notin> set label" and "0 \<le> year d" and "year d \<le> 9999"
  shows "split_nl (formatVersion label (Some d) cc repoUrl) =
           (''## ['' @ label @ '']'' @ '' - '' @ formatDate d) # [] #
           concat (map (\<lambda>cat. concat (map split_nl (categorySections cc repoUrl cat)))
                       CATEGORY_ORDER)"
proof -
  let ?h = "''## ['' @ label @ '']'' @ '' - '' @ formatDate d"
  let ?S = "concat (map (categorySections cc repoUrl) CATEGORY_ORDER)"
  have hl: "split_nl ?h = [?h]"
    using assms(1) formatDate_no_newline [OF assms(2,3)] by (intro split_nl_line) simp
  have cs: "concat (map (\<lambda>cat. concat (map split_nl (categorySections cc repoUrl cat)))
                        CATEGORY_ORDER) = concat (map split_nl ?S)"
    by (simp only: concat_map_concat_map)
  show ?thesis
  proof (cases "?S = []")
    case True
    then have "formatVersion label (Some d) cc repoUrl = join [CHR 0x0A] [?h, []]"
      using entriesContent_trim [of cc repoUrl] by (simp add: formatVersion_def Let_def)
    then have "split_nl (formatVersion label (Some d) cc repoUrl) = [?h, []]"
      using hl split_nl_join [of "[?h, []]"] by simp
    with True cs show ?thesis by simp
  next
    case False
    then have "formatVersion label (Some d) cc repoUrl =
                 join [CHR 0x0A] [?h, [], join [CHR 0x0A] ?S]"
      using entriesContent_trim [of cc repoUrl]
      by (simp add: formatVersion_def Let_def formatAIEntries_def)
    then have "split_nl (formatVersion label (Some d) cc repoUrl) =
                 ?h # [] # split_nl (join [CHR 0x0A] ?S)"
      using hl split_nl_join [of "[?h, [], join [CHR 0x0A] ?S]"] by simp
    with split_nl_join [OF False] cs show ?thesis by simp
  qed
qed

lemma parse_entries:
  assumes "currentVersion st = Some v" and "currentCategory st = Some cat"
    and "\<forall>x \<in> set es. x \<noteq> [] \<and> (\<forall>ch \<in> set x. \<not> isLineTerminator ch) \<and> trim x = x"
  shows "parseLoop i (map (\<lambda>x. ''- '' @ x) es @ rest) st =
           parseLoop (i + length es) rest
             (st\<lparr>currentVersion := Some (v\<lparr>entries := entries v @
                map (\<lambda>x. \<lparr>category = cat, description = x, commits = []\<rparr>) es\<rparr>)\<rparr>)"
  using assms
proof (induction es arbitrary: i st v)
  case Nil
  from Nil.prems(1) have "st\<lparr>currentVersion := Some v\<rparr> = st"
    by (simp add: Nil.prems(1) [symmetric])
  then show ?case by simp
next
  case (Cons x es)
  let ?st1 = "st\<lparr>currentVersion := Some (v\<lparr>entries := entries v @
                  [\<lparr>category = cat, description = x, commits = []\<rparr>]\<rparr>)\<rparr>"
  have s: "step i (''- '' @ x) st = Inr ?st1"
    using Cons.prems by (intro step_entry_line) auto
  have "parseLoop (Suc i) (map (\<lambda>x. ''- '' @ x) es @ rest) ?st1 =
          parseLoop (Suc i + length es) rest
            (?st1\<lparr>currentVersion := Some ((v\<lparr>entries := entries v @
                  [\<lparr>category = cat, description = x, commits = []\<rparr>]\<rparr>)\<lparr>entries :=
                entries (v\<lparr>entries := entries v @
                  [\<lparr>category = cat, description = x, commits = []\<rparr>]\<rparr>) @
                map (\<lambda>x. \<lparr>category = cat, description = x, commits = []\<rparr>) es\<rparr>)\<rparr>)"
    using Cons.prems by (intro Cons.IH) auto
  with s show ?case by simp
qed

lemma parse_section:
  assumes "\<not> inPreamble st" and "currentVersion st = Some v"
    and "\<forall>x \<in> set (categories cc cat).
           x \<noteq> [] \<and> (\<forall>ch \<in> set x. \<not> isLineTerminator ch) \<and> trim x = x"
  shows "\<exists>j st'. parseLoop i (concat (map split_nl (categorySections cc repoUrl cat)) @ rest) st
                  = parseLoop j rest st' \<and>
           \<not> inPreamble st' \<and>
           currentVersion st' = Some (v\<lparr>entries := entries v @
             map (\<lambda>x. \<lparr>category = cat, description = x, commits = []\<rparr>) (categories cc cat)\<rparr>) \<and>
           p_title st' = p_title st \<and> p_description st' = p_description st \<and>
           p_versions st' = p_versions st"
proof (cases "categories cc cat = []")
  case True
  have "\<forall>x \<in> set (categories cc cat). CHR 0x0A \<notin> set x" using True by simp
  from section_lines [OF this, of repoUrl] True
  have e: "concat (map split_nl (categorySections cc repoUrl cat)) = []" by simp
  have "parseLoop i ([] @ rest) st = parseLoop i rest st" by simp
  moreover have "v\<lparr>entries := entries v @
             map (\<lambda>x. \<lparr>category = cat, description = x, commits = []\<rparr>) (categories cc cat)\<rparr> = v"
    by (simp add: True)
  ultimately show ?thesis
    unfolding e using assms(1,2) by (intro exI [of _ i] exI [of _ st]) simp
next
  case False
  let ?es = "categories cc cat"
  have nl: "\<forall>x \<in> set ?es. CHR 0x0A \<notin> set x"
    using assms(3) by (auto simp: isLineTerminator_def)
  have ls: "concat (map split_nl (categorySections cc repoUrl cat)) @ rest =
              (''### '' @ categoryName cat) # [] # (map (\<lambda>x. ''- '' @ x) ?es @ ([] # rest))"
    using section_lines [OF nl, of repoUrl] False by simp
  let ?st1 = "st\<lparr>currentCategory := Some cat\<rparr>"
  let ?st2 = "?st1\<lparr>currentVersion := Some (v\<lparr>entries := entries v @
                map (\<lambda>x. \<lparr>category = cat, description = x, commits = []\<rparr>) ?es\<rparr>)\<rparr>"
  have 1: "step i (''### '' @ categoryName cat) st = Inr ?st1"
    using assms(2) by (rule step_category_line)
  have 2: "step (Suc i) [] ?st1 = Inr ?st1"
    using assms(1) by (intro step_blank) simp
  have 3: "parseLoop (Suc (Suc i)) (map (\<lambda>x. ''- '' @ x) ?es @ ([] # rest)) ?st1 =
             parseLoop (Suc (Suc i) + length ?es) ([] # rest) ?st2"
    using assms(2,3) by (intro parse_entries) auto
  have 4: "step (Suc (Suc i) + length ?es) [] ?st2 = Inr ?st2"
    using assms(1) by (intro step_blank) simp
  have "parseLoop i (concat (map split_nl (categorySections cc repoUrl cat)) @ rest) st =
          parseLoop i ((''### '' @ categoryName cat) # [] #
                       (map (\<lambda>x. ''- '' @ x) ?es @ ([] # rest))) st"
    by (simp only: ls)
  also have "\<dots> = parseLoop (Suc i) ([] # (map (\<lambda>x. ''- '' @ x) ?es @ ([] # rest))) ?st1"
    by (simp only: parseLoop.simps 1 sum.simps)
  also have "\<dots> = parseLoop (Suc (Suc i)) (map (\<lambda>x. ''- '' @ x) ?es @ ([] # rest)) ?st1"
    by (simp only: parseLoop.simps 2 sum.simps)
  also have "\<dots> = parseLoop (Suc (Suc i) + length ?es) ([] # rest) ?st2"
    by (rule 3)
  also have "\<dots> = parseLoop (Suc (Suc (Suc i) + length ?es)) rest ?st2"
    by (simp only: parseLoop.simps 4 sum.simps)
  finally have "parseLoop i (concat (map split_nl (categorySections cc repoUrl cat)) @ rest) st =
          parseLoop (Suc (Suc (Suc i) + length ?es)) rest ?st2" .
  moreover have "\<not> inPreamble ?st2" using assms(1) by simp
  ultimately show ?thesis by (intro exI [of _ "Suc (Suc (Suc i) + length ?es)"] exI [of _ ?st2]) simp
qed

lemma parse_sections:
  assumes "\<not> inPreamble st" and "currentVersion st = Some v"
    and "\<forall>cat. \<forall>x \<in> set (categories cc cat).
           x \<noteq> [] \<and> (\<forall>ch \<in> set x. \<not> isLineTerminator ch) \<and> trim x = x"
  shows "\<exists>st'. parseLoop i (concat (map (\<lambda>cat. concat (map split_nl
                    (categorySections cc repoUrl cat))) cats)) st = Inr st' \<and>
           currentVersion st' = Some (v\<lparr>entries := entries v @
             concat (map (\<lambda>cat. map (\<lambda>x. \<lparr>category = cat, description = x, commits = []\<rparr>)
                                    (categories cc cat)) cats)\<rparr>) \<and>
           p_title st' = p_title st \<and> p_description st' = p_description st \<and>
           p_versions st' = p_versions st"
  using assms(1,2)
proof (induction cats arbitrary: i st v)
  case Nil
  then show ?case by simp
next
  case (Cons cat cats)
  let ?rst = "concat (map (\<lambda>cat. concat (map split_nl (categorySections cc repoUrl cat))) cats)"
  let ?v1 = "v\<lparr>entries := entries v @
             map (\<lambda>x. \<lparr>category = cat, description = x, commits = []\<rparr>) (categories cc cat)\<rparr>"
  from assms(3) have g: "\<forall>x \<in> set (categories cc cat).
           x \<noteq> [] \<and> (\<forall>ch \<in> set x. \<not> isLineTerminator ch) \<and> trim x = x" by blast
  from parse_section [OF Cons.prems g, of i repoUrl ?rst] obtain j st1
    where a: "parseLoop i (concat (map split_nl (categorySections cc repoUrl cat)) @ ?rst) st
                = parseLoop j ?rst st1"
      and b: "\<not> inPreamble st1" and c: "currentVersion st1 = Some ?v1"
      and d: "p_title st1 = p_title st" "p_description st1 = p_description st"
             "p_versions st1 = p_versions st"
    by blast
  from Cons.IH [OF b c, of j] obtain st'
    where e: "parseLoop j ?rst st1 = Inr st'"
      and f: "currentVersion st' = Some (?v1\<lparr>entries := entries ?v1 @
             concat (map (\<lambda>cat. map (\<lambda>x. \<lparr>category = cat, description = x, commits = []\<rparr>)
                                    (categories cc cat)) cats)\<rparr>)"
      and h: "p_title st' = p_title st1" "p_description st' = p_description st1"
             "p_versions st' = p_versions st1"
    by blast
  show ?case
    using a e f h d by simp
qed

lemma step_header:
  assumes "label \<noteq> []" and "CHR '']'' \<notin> set label" and "trim label = label"
    and "0 \<le> year d" and "year d \<le> 9999" and "month d \<le> 12" and "day d \<le> 31"
  shows "step 0 (''## ['' @ label @ '']'' @ '' - '' @ formatDate d) initial =
           Inr (initial\<lparr>p_description := [], inPreamble := False,
                  currentVersion := Some \<lparr>version = label, date = Some d, entries = []\<rparr>,
                  currentCategory := None\<rparr>)"
proof -
  let ?h = "''## ['' @ label @ '']'' @ '' - '' @ formatDate d"
  have t: "\<not> startsWith ?h ''# ''" by (simp add: startsWith_def)
  have m: "match ?h VERSION_HEADER_REGEX = Some [1 \<mapsto> label, 2 \<mapsto> formatDate d]"
    using assms(1,2,4,5) by (rule header_match)
  have v: "versionStep [1 \<mapsto> label, 2 \<mapsto> formatDate d] initial =
             Inr (initial\<lparr>p_description := [], inPreamble := False,
                  currentVersion := Some \<lparr>version = label, date = Some d, entries = []\<rparr>,
                  currentCategory := None\<rparr>)"
    using assms(3) newDate_formatDate [OF assms(4,5,6,7)]
    by (simp add: versionStep_def group_def initial_def trim_def)
  show ?thesis
    unfolding step_def using t m v by (simp only: simp_thms if_False option.simps)
qed

text \<open>
  C2 (as amended).  Let the label be non-empty, without \<open>]\<close> and line feed and without
  white space at either end; let the date be present, a calendar day of a year from 0 to
  9999; let every description be non-empty, without line terminator and without white
  space at either end.  Then parsing the text of \<open>formatVersion\<close> gives the default
  title, an empty preamble and exactly one version section, whose label and date are the
  inputs and whose entries are the descriptions of the non-empty categories, grouped in
  the order Added, Changed, Deprecated, Removed, Fixed, Security.
\<close>

theorem format_parse_roundtrip:
  assumes "label \<noteq> []" and "CHR '']'' \<notin> set label" and "CHR 0x0A \<notin> set label"
    and "trim label = label"
    and "0 \<le> year d" and "year d \<le> 9999"
    and "1 \<le> month d" and "month d \<le> 12" and "1 \<le> day d" and "day d \<le> 31"
    and "\<forall>cat. \<forall>x \<in> set (categories cc cat).
           x \<noteq> [] \<and> (\<forall>ch \<in> set x. \<not> isLineTerminator ch) \<and> trim x = x"
  shows "parseChangelog (formatVersion label (Some d) cc repoUrl) =
           Inr \<lparr>title = ''Changelog'', doc_description = [],
                versions = [\<lparr>version = label, date = Some d,
                  entries = concat (map (\<lambda>cat. map (\<lambda>x. \<lparr>category = cat, description = x,
                                                           commits = []\<rparr>)
                                                   (categories cc cat)) CATEGORY_ORDER)\<rparr>]\<rparr>"
proof -
  let ?h = "''## ['' @ label @ '']'' @ '' - '' @ formatDate d"
  let ?body = "concat (map (\<lambda>cat. concat (map split_nl (categorySections cc repoUrl cat)))
                           CATEGORY_ORDER)"
  let ?v = "\<lparr>version = label, date = Some d, entries = []\<rparr>"
  let ?st1 = "initial\<lparr>p_description := [], inPreamble := False,
                  currentVersion := Some ?v, currentCategory := None\<rparr>"
  have ls: "split_nl (formatVersion label (Some d) cc repoUrl) = ?h # [] # ?body"
    using assms(3,5,6) by (rule formatVersion_lines)
  have 1: "step 0 ?h initial = Inr ?st1"
    using assms(1,2,4,5,6,8,10) by (rule step_header)
  have 2: "step (Suc 0) [] ?st1 = Inr ?st1"
    by (intro step_blank) simp
  have p: "\<not> inPreamble ?st1" and cv: "currentVersion ?st1 = Some ?v" by simp_all
  from parse_sections [OF p cv assms(11), of "Suc (Suc 0)" repoUrl CATEGORY_ORDER]
  obtain st' where 3: "parseLoop (Suc (Suc 0)) ?body ?st1 = Inr st'"
    and 4: "currentVersion st' = Some (?v\<lparr>entries := entries ?v @
             concat (map (\<lambda>cat. map (\<lambda>x. \<lparr>category = cat, description = x, commits = []\<rparr>)
                                    (categories cc cat)) CATEGORY_ORDER)\<rparr>)"
    and 5: "p_title st' = p_title ?st1" "p_description st' = p_description ?st1"
           "p_versions st' = p_versions ?st1"
    by blast
  have "parseLoop 0 (?h # [] # ?body) initial = parseLoop (Suc 0) ([] # ?body) ?st1"
    by (simp only: parseLoop.simps 1 sum.simps)
  also have "\<dots> = parseLoop (Suc (Suc 0)) ?body ?st1"
    by (simp only: parseLoop.simps 2 sum.simps)
  also note 3
  finally have "parseLoop 0 (split_nl (formatVersion label (Some d) cc repoUrl)) initial = Inr st'"
    by (simp only: ls)
  then show ?thesis
    using 4 5 by (simp add: parseChangelog_def initial_def)
qed

theorem format_parse_roundtrip_witness:
  "parseChangelog (formatVersion ''1.1.0'' (Some (Date 2024 3 9)) sampleChanges
       (Some ''https://example.com/org/repo'')) =
     Inr \<lparr>title = ''Changelog'', doc_description = [],
          versions = [\<lparr>version = ''1.1.0'', date = Some (Date 2024 3 9),
            entries = [\<lparr>category = Added, description = ''New flag'', commits = []\<rparr>,
                       \<lparr>category = Fixed, description = ''Crash on start'', commits = []\<rparr>]\<rparr>]\<rparr>"
proof -
  have l: "''1.1.0'' \<noteq> []" "CHR '']'' \<notin> set ''1.1.0''" "CHR 0x0A \<notin> set ''1.1.0''"
    "trim ''1.1.0'' = ''1.1.0''"
    by (simp_all add: trim_def isSpace_def)
  have d: "0 \<le> year (Date 2024 3 9)" "year (Date 2024 3 9) \<le> 9999"
    "1 \<le> month (Date 2024 3 9)" "month (Date 2024 3 9) \<le> 12"
    "1 \<le> day (Date 2024 3 9)" "day (Date 2024 3 9) \<le> 31"
    by simp_all
  have "list_all (\<lambda>cat. list_all (\<lambda>x. x \<noteq> [] \<and> list_all (\<lambda>ch. \<not> isLineTerminator ch) x
                                     \<and> trim x = x) (categories sampleChanges cat))
          [Added, Changed, Deprecated, Removed, Fixed, Security]"
    by code_simp
  then have c: "\<forall>cat. \<forall>x \<in> set (categories sampleChanges cat).
           x \<noteq> [] \<and> (\<forall>ch \<in> set x. \<not> isLineTerminator ch) \<and> trim x = x"
    unfolding list_all_iff
  proof (intro allI)
    fix cat
    assume a: "\<forall>cat \<in> set [Added, Changed, Deprecated, Removed, Fixed, Security].
      \<forall>x \<in> set (categories sampleChanges cat).
        x \<noteq> [] \<and> (\<forall>ch \<in> set x. \<not> isLineTerminator ch) \<and> trim x = x"
    have "cat \<in> set [Added, Changed, Deprecated, Removed, Fixed, Security]"
      by (cases cat) simp_all
    with a show "\<forall>x \<in> set (categories sampleChanges cat).
        x \<noteq> [] \<and> (\<forall>ch \<in> set x. \<not> isLineTerminator ch) \<and> trim x = x"
      by blast
  qed
  have e: "concat (map (\<lambda>cat. map (\<lambda>x. \<lparr>category = cat, description = x, commits = []\<rparr>)
                            (categories sampleChanges cat)) CATEGORY_ORDER) =
           [\<lparr>category = Added, description = ''New flag'', commits = []\<rparr>,
            \<lparr>category = Fixed, description = ''Crash on start'', commits = []\<rparr>]"
    by code_simp
  show ?thesis
    using format_parse_roundtrip [OF l d c, of "Some ''https://example.com/org/repo''"]
    unfolding e .
qed

text \<open>
  The claim as it was stated fails, for one, on a description with white space at an
  end: the parser trims every bullet text, so \<open> padded\<close> comes back as \<open>padded\<close>.
\<close>

theorem format_parse_roundtrip_counterexample:
  "categories paddedChanges Added = ['' padded''] \<and>
   parseChangelog (formatVersion ''1.0.0'' (Some (Date 2024 3 9)) paddedChanges None) =
     Inr \<lparr>title = ''Changelog'', doc_description = [],
          versions = [\<lparr>version = ''1.0.0'', date = Some (Date 2024 3 9),
            entries = [\<lparr>category = Added, description = ''padded'', commits = []\<rparr>]\<rparr>]\<rparr>"
  by code_simp

end
